theory Spec2Isabelle
  imports Main
begin

section \<open>Shared data: Python dictionaries and the candidate record\<close>

text \<open>
  A Python \<^verbatim>\<open>dict\<close> keeps its keys in insertion order. The assignment
  \<^verbatim>\<open>d[k] = v\<close> replaces the value of a key that is present, leaving the key at its
  position, and appends the pair when the key is absent. A dictionary is therefore an
  association list and \<open>setitem\<close> is the assignment.
\<close>

fun setitem :: "'k \<Rightarrow> 'v \<Rightarrow> ('k \<times> 'v) list \<Rightarrow> ('k \<times> 'v) list" where
  "setitem k v [] = [(k, v)]"
| "setitem k v ((k', v') # d) =
     (if k' = k then (k, v) # d else (k', v') # setitem k v d)"

text \<open>\<^verbatim>\<open>d[k]\<close> is \<open>map_of d k\<close> (\<open>None\<close> is Python's KeyError), \<^verbatim>\<open>len(d)\<close> is
  \<open>length d\<close>, \<^verbatim>\<open>list(d.values())\<close> is \<open>map snd d\<close>.\<close>

text \<open>The dictionary built by \<^verbatim>\<open>user_to_dict\<close>, which is also one element of the
  JSON array in \<^verbatim>\<open>data/members_<group_source>.json\<close>. The key \<^verbatim>\<open>'id'\<close> is the field
  \<open>user_id\<close>.\<close>

record candidate =
  user_id :: int
  access_hash :: int
  username :: "string option"
  first_name :: "string option"
  last_name :: "string option"
  phone :: "string option"
  bot :: bool
  verified :: bool
  restricted :: bool
  scam :: bool
  fake :: bool
  premium :: bool

text \<open>The Python exceptions that the two programs can raise by themselves.\<close>

datatype py_error = IndexError | ZeroDivisionError | KeyError | ValueError

section \<open>The Collector: \<^verbatim>\<open>get_members.py\<close>\<close>

text \<open>The attributes of a \<^verbatim>\<open>telethon.tl.types.User\<close> that the scraper reads.\<close>

record tl_user =
  tl_id :: int
  tl_access_hash :: int
  tl_username :: "string option"
  tl_first_name :: "string option"
  tl_last_name :: "string option"
  tl_phone :: "string option"
  tl_bot :: bool
  tl_verified :: bool
  tl_restricted :: bool
  tl_scam :: bool
  tl_fake :: bool
  tl_premium :: bool
  tl_deleted :: bool

text \<open>What the library hands back where the code tests \<^verbatim>\<open>isinstance(x, User)\<close>.\<close>

datatype entity = User tl_user | UserEmpty int | Channel int

record message =
  message_id :: int
  sender :: "entity option"

record reaction =
  peer :: entity

text \<open>The result of one awaited library call: a value, the rate-limit signal
  \<^verbatim>\<open>FloodWaitError\<close> with its \<^verbatim>\<open>seconds\<close>, or any other exception.\<close>

datatype 'a rpc = Returned 'a | FloodWait int | OtherException

text \<open>
  The remote group as the four strategies see it. \<open>history\<close> is the message history, most
  recent first; \<open>iter_fails_after\<close> is \<open>Some n\<close> when \<^verbatim>\<open>iter_messages\<close> raises after
  having yielded \<open>n\<close> messages. Each search pattern is queried once, so the answers of the
  participant search are a function of the pattern.
\<close>

record source_group =
  recent_participants :: "entity list rpc"
  history :: "message list"
  iter_fails_after :: "nat option"
  get_messages_fails :: bool
  message_reactions :: "int \<Rightarrow> reaction list rpc"
  search_participants :: "string \<Rightarrow> entity list rpc"

datatype scrape_event = Query string | Sleep int

record scraper =
  all_members :: "(int \<times> candidate) list"
  events :: "scrape_event list"

definition scraper_init :: scraper where
  "scraper_init = \<lparr>all_members = [], events = []\<rparr>"

definition user_to_dict :: "tl_user \<Rightarrow> candidate" where
  "user_to_dict user =
     \<lparr>user_id = tl_id user, access_hash = tl_access_hash user,
      username = tl_username user, first_name = tl_first_name user,
      last_name = tl_last_name user, phone = tl_phone user,
      bot = tl_bot user, verified = tl_verified user,
      restricted = tl_restricted user, scam = tl_scam user,
      fake = tl_fake user, premium = tl_premium user\<rparr>"

text \<open>\<^verbatim>\<open>self.all_members[user.id] = self.user_to_dict(user)\<close>\<close>

definition store :: "tl_user \<Rightarrow> scraper \<Rightarrow> scraper" where
  "store user st =
     st\<lparr>all_members := setitem (tl_id user) (user_to_dict user) (all_members st)\<rparr>"

text \<open>The body of the loop over messages (lines 63 to 65).\<close>

fun from_message :: "message \<Rightarrow> scraper \<Rightarrow> scraper" where
  "from_message m st =
     (case sender m of
        Some (User u) \<Rightarrow> (if \<not> tl_bot u \<and> \<not> tl_deleted u then store u st else st)
      | _ \<Rightarrow> st)"

text \<open>The messages that \<^verbatim>\<open>iter_messages(group, limit=limit)\<close> yields before it ends or
  raises.\<close>

definition iter_messages :: "source_group \<Rightarrow> nat \<Rightarrow> message list" where
  "iter_messages g limit =
     (case iter_fails_after g of
        None \<Rightarrow> take limit (history g)
      | Some n \<Rightarrow> take n (take limit (history g)))"

definition get_members_from_messages :: "source_group \<Rightarrow> nat \<Rightarrow> scraper \<Rightarrow> scraper" where
  "get_members_from_messages g limit st = fold from_message (iter_messages g limit) st"

text \<open>The body of the loop over the reactions of one message (lines 80 and 81): no test
  of \<^verbatim>\<open>deleted\<close> here.\<close>

fun from_reaction :: "reaction \<Rightarrow> scraper \<Rightarrow> scraper" where
  "from_reaction r st =
     (case peer r of
        User u \<Rightarrow> (if \<not> tl_bot u then store u st else st)
      | _ \<Rightarrow> st)"

text \<open>One message of the reaction scan: an exception of the call is swallowed and the
  scan goes on with the next message.\<close>

definition reactions_of_message :: "source_group \<Rightarrow> message \<Rightarrow> scraper \<Rightarrow> scraper" where
  "reactions_of_message g m st =
     (case message_reactions g (message_id m) of
        Returned rs \<Rightarrow> fold from_reaction rs st
      | _ \<Rightarrow> st)"

definition get_members_from_reactions :: "source_group \<Rightarrow> nat \<Rightarrow> scraper \<Rightarrow> scraper" where
  "get_members_from_reactions g limit st =
     (if get_messages_fails g then st
      else fold (reactions_of_message g) (take limit (history g)) st)"

text \<open>The body of the loops over \<^verbatim>\<open>participants.users\<close> (lines 111, 112 and 136, 137).\<close>

fun from_participant :: "entity \<Rightarrow> scraper \<Rightarrow> scraper" where
  "from_participant e st =
     (case e of
        User u \<Rightarrow> (if \<not> tl_bot u \<and> \<not> tl_deleted u then store u st else st)
      | _ \<Rightarrow> st)"

text \<open>The list \<^verbatim>\<open>search_patterns\<close>: the letters, the common name starts, and the ten
  one-character strings of the digits, in the order 1 to 9 and then 0.\<close>

definition search_patterns :: "string list" where
  "search_patterns =
     [''a'', ''e'', ''i'', ''o'', ''u'',
      ''al'', ''an'', ''be'', ''ch'', ''de'', ''el'', ''jo'', ''ka'', ''ma'', ''mi'',
      ''mo'', ''ra'', ''sa'', ''sh'', ''st'', ''th'', ''wi'']
     @ map (\<lambda>c. [c]) ''1234567890''"

definition sleep :: "int \<Rightarrow> scraper \<Rightarrow> scraper" where
  "sleep n st = st\<lparr>events := events st @ [Sleep n]\<rparr>"

text \<open>One turn of \<^verbatim>\<open>for pattern in search_patterns\<close>: the query, then either the merge
  and the fixed pause of 2, or the pause the server asked for, or only a log line.\<close>

definition search_pattern :: "source_group \<Rightarrow> string \<Rightarrow> scraper \<Rightarrow> scraper" where
  "search_pattern g pattern st =
     (let st1 = st\<lparr>events := events st @ [Query pattern]\<rparr>
      in case search_participants g pattern of
           Returned users \<Rightarrow> sleep 2 (fold from_participant users st1)
         | FloodWait seconds \<Rightarrow> sleep seconds st1
         | OtherException \<Rightarrow> st1)"

text \<open>The \<^verbatim>\<open>for\<close> loop itself, over any list of patterns.\<close>

fun search_loop :: "source_group \<Rightarrow> string list \<Rightarrow> scraper \<Rightarrow> scraper" where
  "search_loop g [] st = st"
| "search_loop g (pattern # rest) st = search_loop g rest (search_pattern g pattern st)"

definition get_members_by_search :: "source_group \<Rightarrow> scraper \<Rightarrow> scraper" where
  "get_members_by_search g st = search_loop g search_patterns st"

definition get_members_from_recent :: "source_group \<Rightarrow> scraper \<Rightarrow> scraper" where
  "get_members_from_recent g st =
     (case recent_participants g of
        Returned users \<Rightarrow> fold from_participant users st
      | _ \<Rightarrow> st)"

text \<open>
  \<^verbatim>\<open>MemberScraper.run\<close> from the first strategy on, with the default limits of the two
  scans, and what it writes to the candidate file: the values of \<open>all_members\<close> when
  there is one, nothing otherwise.
\<close>

definition collect :: "source_group \<Rightarrow> scraper \<Rightarrow> scraper" where
  "collect g st =
     get_members_by_search g
       (get_members_from_reactions g 100
         (get_members_from_messages g 3000
           (get_members_from_recent g st)))"

definition members_list :: "scraper \<Rightarrow> candidate list" where
  "members_list st = map snd (all_members st)"

text \<open>The session of an account as \<^verbatim>\<open>run\<close> finds it: \<open>ConnectFailed\<close> and
  \<open>EntityFailed\<close> are an exception of \<^verbatim>\<open>connect\<close> and of \<^verbatim>\<open>get_entity\<close>.\<close>

datatype session_outcome = ConnectFailed | NotAuthorized | EntityFailed | Ready

text \<open>
  \<^verbatim>\<open>MemberScraper().run()\<close>, given the configured accounts and the session of the first
  one: IndexError for \<^verbatim>\<open>accounts[0]\<close> when no account is configured; nothing is written
  when the session is not usable or when no member was found; otherwise the member list
  is written to the candidate file. (The statistics file, computed from the same list, is
  left out.)
\<close>

definition scraper_run ::
  "string list \<Rightarrow> session_outcome \<Rightarrow> source_group \<Rightarrow> py_error + candidate list option" where
  "scraper_run accs s g =
     (case accs of
        [] \<Rightarrow> Inl IndexError
      | account0 # _ \<Rightarrow>
          Inr (case s of
                 Ready \<Rightarrow>
                   (let ms = members_list (collect g scraper_init)
                    in if ms \<noteq> [] then Some ms else None)
               | _ \<Rightarrow> None))"

section \<open>The Dispatcher: \<^verbatim>\<open>add_members.py\<close>\<close>

subsection \<open>Configuration, environment and state\<close>

text \<open>The keys of \<^verbatim>\<open>config.json\<close> that decide what the Dispatcher does. The integers are
  Python integers, so they may be negative.\<close>

record config =
  accounts :: "string list"
  members_to_add :: int
  min_delay :: int
  max_delay :: int
  max_adds_per_day_per_account :: int

text \<open>
  How one \<^verbatim>\<open>InviteToChannelRequest\<close> ends: it returns, or it raises one of the
  exceptions that \<^verbatim>\<open>add_member\<close> has a clause for, or it raises anything else
  (\<open>OtherError\<close>, which includes \<^verbatim>\<open>UserIdInvalidError\<close>: imported, but caught only by
  \<^verbatim>\<open>except Exception\<close>).
\<close>

datatype invite_outcome =
    Invited
  | FloodWaitError int
  | UserPrivacyRestrictedError
  | UserNotMutualContactError
  | UserBannedInChannelError
  | UserBlockedError
  | PeerFloodError
  | OtherError

text \<open>
  The world outside the process, as three oracles: what the \<open>k\<close>-th connection of the
  run finds for a session file, how the \<open>k\<close>-th invite request of the run ends, and the
  raw draw of the random generator for it.
\<close>

record world =
  session_state :: "nat \<Rightarrow> string \<Rightarrow> session_outcome"
  invite_result :: "nat \<Rightarrow> string \<Rightarrow> candidate \<Rightarrow> invite_outcome"
  random_draw :: "nat \<Rightarrow> nat"

text \<open>What the process does to the world, in order: connections (by session file),
  invite requests (session file, candidate, and how the request ended), sleeps.\<close>

datatype adder_event =
    Connect string
  | Invite string candidate invite_outcome
  | Slept int
  | Disconnect

text \<open>The contents of \<^verbatim>\<open>data/adding_progress.json\<close>, without the wall-clock timestamp.\<close>

record progress =
  saved_added_members :: "candidate list"
  saved_daily_stats :: "(string \<times> int) list"

text \<open>
  The state of a run: the two attributes of \<^verbatim>\<open>MemberAdder\<close> that the code updates, the
  local variables of \<^verbatim>\<open>run\<close>, the progress file as last written by this run, and the
  events so far with the number of connections and of requests made.
\<close>

record adder =
  current_account_index :: nat
  daily_stats :: "(string \<times> int) list"
  members :: "candidate list"
  added_members :: "candidate list"
  current_phone :: string
  session_file :: string
  progress_file :: "progress option"
  trace :: "adder_event list"
  connections :: nat
  requests :: nat

text \<open>\<^verbatim>\<open>__init__\<close>: index 0 and \<^verbatim>\<open>{phone: 0 for phone in accounts}\<close>.\<close>

definition adder_init :: "config \<Rightarrow> adder" where
  "adder_init cfg =
     \<lparr>current_account_index = 0,
      daily_stats = fold (\<lambda>account. setitem account 0) (accounts cfg) [],
      members = [], added_members = [], current_phone = [], session_file = [],
      progress_file = None, trace = [], connections = 0, requests = 0\<rparr>"

text \<open>\<^verbatim>\<open>load_members\<close>: the candidate file, or the empty list when reading it fails
  (\<open>None\<close>).\<close>

definition load_members :: "candidate list option \<Rightarrow> candidate list" where
  "load_members file = (case file of Some ms \<Rightarrow> ms | None \<Rightarrow> [])"

text \<open>\<^verbatim>\<open>save_progress\<close> overwrites the progress file. The write itself is taken to
  succeed; the code only logs when it does not.\<close>

definition save_progress :: "candidate list \<Rightarrow> adder \<Rightarrow> adder" where
  "save_progress added st =
     st\<lparr>progress_file :=
          Some \<lparr>saved_added_members = added, saved_daily_stats = daily_stats st\<rparr>\<rparr>"

subsection \<open>Rotation and one add attempt\<close>

text \<open>\<^verbatim>\<open>switch_account\<close>. With no account the modulus is zero and Python raises. The
  account it returns is ignored by every caller.\<close>

definition switch_account :: "config \<Rightarrow> adder \<Rightarrow> py_error + adder" where
  "switch_account cfg st =
     (if accounts cfg = [] then Inl ZeroDivisionError
      else Inr (st\<lparr>current_account_index :=
                    (current_account_index st + 1) mod length (accounts cfg)\<rparr>))"

definition asyncio_sleep :: "int \<Rightarrow> adder \<Rightarrow> adder" where
  "asyncio_sleep n st = st\<lparr>trace := trace st @ [Slept n]\<rparr>"

text \<open>\<^verbatim>\<open>random.randint(a, b)\<close> from the generator's raw draw \<open>r\<close>: an integer of the
  inclusive range, or ValueError when the range is empty.\<close>

definition randint :: "nat \<Rightarrow> int \<Rightarrow> int \<Rightarrow> py_error + int" where
  "randint r a b = (if b < a then Inl ValueError else Inr (a + int r mod (b - a + 1)))"

text \<open>
  \<^verbatim>\<open>add_member\<close>, with the client given by its session file. The result is \<open>Inr\<close> of
  the boolean it returns, or \<open>Inl\<close> of the exception that leaves it: only
  \<^verbatim>\<open>switch_account\<close>, called inside the handler of \<^verbatim>\<open>PeerFloodError\<close>, can raise one
  that no clause catches. A ValueError of \<^verbatim>\<open>randint\<close> is caught by
  \<^verbatim>\<open>except Exception\<close>: the function then returns False without sleeping.
\<close>

definition add_member ::
  "config \<Rightarrow> world \<Rightarrow> string \<Rightarrow> candidate \<Rightarrow> adder \<Rightarrow> (py_error + bool) \<times> adder" where
  "add_member cfg w client user_data st =
     (let outcome = invite_result w (requests st) client user_data;
          st1 = st\<lparr>trace := trace st @ [Invite client user_data outcome],
                    requests := Suc (requests st)\<rparr>
      in case outcome of
           Invited \<Rightarrow>
             (case randint (random_draw w (requests st)) (min_delay cfg) (max_delay cfg) of
                Inr delay \<Rightarrow> (Inr True, asyncio_sleep delay st1)
              | Inl e \<Rightarrow> (Inr False, st1))
         | FloodWaitError seconds \<Rightarrow> (Inr False, asyncio_sleep seconds st1)
         | PeerFloodError \<Rightarrow>
             (case switch_account cfg st1 of
                Inr st2 \<Rightarrow> (Inr False, asyncio_sleep 60 st2)
              | Inl e \<Rightarrow> (Inl e, st1))
         | _ \<Rightarrow> (Inr False, st1))"

subsection \<open>The dispatch loops\<close>

text \<open>Lines 165 to 167, after a successful attempt: append, count, checkpoint. The
  count raises KeyError when the current phone has no counter.\<close>

definition count_success :: "candidate \<Rightarrow> adder \<Rightarrow> py_error option \<times> adder" where
  "count_success user_data st =
     (let st1 = st\<lparr>added_members := added_members st @ [user_data]\<rparr>
      in case map_of (daily_stats st1) (current_phone st1) of
           None \<Rightarrow> (Some KeyError, st1)
         | Some n \<Rightarrow>
             (None, save_progress (added_members st1)
                      (st1\<lparr>daily_stats :=
                             setitem (current_phone st1) (n + 1) (daily_stats st1)\<rparr>)))"

datatype flow = Continue | Break | Raise py_error

text \<open>The body of the inner \<^verbatim>\<open>while\<close> (lines 162 to 171): pop the front candidate, try
  to add it on the client of this round, and test the quota of \<open>current_phone\<close>.\<close>

definition add_next :: "config \<Rightarrow> world \<Rightarrow> adder \<Rightarrow> flow \<times> adder" where
  "add_next cfg w st =
     (case members st of
        [] \<Rightarrow> (Raise IndexError, st)
      | user_data # rest \<Rightarrow>
          (case add_member cfg w (session_file st) user_data (st\<lparr>members := rest\<rparr>) of
             (Inl e, st1) \<Rightarrow> (Raise e, st1)
           | (Inr ok, st1) \<Rightarrow>
               (case (if ok then count_success user_data st1 else (None, st1)) of
                  (Some e, st2) \<Rightarrow> (Raise e, st2)
                | (None, st2) \<Rightarrow>
                    (case map_of (daily_stats st2) (current_phone st2) of
                       None \<Rightarrow> (Raise KeyError, st2)
                     | Some n \<Rightarrow>
                         (if n \<ge> max_adds_per_day_per_account cfg then (Break, st2)
                          else (Continue, st2))))))"

text \<open>The condition of both \<^verbatim>\<open>while\<close> loops.\<close>

definition unfinished :: "config \<Rightarrow> adder \<Rightarrow> bool" where
  "unfinished cfg st \<longleftrightarrow>
     int (length (added_members st)) < members_to_add cfg \<and> members st \<noteq> []"

text \<open>Every turn of the inner loop pops a candidate; that is why it terminates.\<close>

lemma members_add_member [simp]:
  "members (snd (add_member cfg w client u st)) = members st"
  by (simp add: add_member_def Let_def asyncio_sleep_def switch_account_def
      split: invite_outcome.splits sum.splits)

lemma members_count_success [simp]:
  "members (snd (count_success u st)) = members st"
  by (simp add: count_success_def Let_def save_progress_def split: option.splits)

lemma members_add_next:
  "members st \<noteq> [] \<Longrightarrow> members (snd (add_next cfg w st)) = tl (members st)"
  apply (cases "members st")
   apply simp
  subgoal for u rest
    apply (simp add: add_next_def)
    apply (cases "add_member cfg w (session_file st) u (st\<lparr>members := rest\<rparr>)")
    subgoal for r st1
      using members_add_member [of cfg w "session_file st" u "st\<lparr>members := rest\<rparr>"]
      apply (cases r)
       apply simp
      subgoal for ok
        using members_count_success [of u st1]
        by (cases "count_success u st1") (auto split: option.splits)
      done
    done
  done

text \<open>The inner \<^verbatim>\<open>while\<close>: it ends normally (\<open>None\<close>) or by an exception that the
  \<^verbatim>\<open>try\<close> of the round catches.\<close>

function add_members_loop :: "config \<Rightarrow> world \<Rightarrow> adder \<Rightarrow> py_error option \<times> adder" where
  "add_members_loop cfg w st =
     (if unfinished cfg st then
        (case fst (add_next cfg w st) of
           Continue \<Rightarrow> add_members_loop cfg w (snd (add_next cfg w st))
         | Break \<Rightarrow> (None, snd (add_next cfg w st))
         | Raise e \<Rightarrow> (Some e, snd (add_next cfg w st)))
      else (None, st))"
  by pat_completeness auto
termination
proof (relation "measure (\<lambda>(cfg, w, st). length (members st))")
  show "wf (measure (\<lambda>(cfg, w, st). length (members st)))"
    by simp
next
  fix cfg :: config and w :: world and st :: adder
  assume "unfinished cfg st"
  then have ne: "members st \<noteq> []"
    by (simp add: unfinished_def)
  from members_add_next [OF ne, of cfg w] ne
  show "((cfg, w, snd (add_next cfg w st)), (cfg, w, st))
      \<in> measure (\<lambda>(cfg, w, st). length (members st))"
    by (cases "members st") simp_all
qed

declare add_members_loop.simps [simp del]

text \<open>\<^verbatim>\<open>f'sessions/{current_phone}'\<close>\<close>

definition session_path :: "string \<Rightarrow> string" where
  "session_path account = ''sessions/'' @ account"

text \<open>The two lines after each \<^verbatim>\<open>switch_account\<close> of \<^verbatim>\<open>run\<close>. The index is in range:
  \<^verbatim>\<open>switch_account\<close> has just reduced it modulo the number of accounts.\<close>

definition reselect :: "config \<Rightarrow> adder \<Rightarrow> adder" where
  "reselect cfg st =
     (let account = accounts cfg ! current_account_index st
      in st\<lparr>current_phone := account, session_file := session_path account\<rparr>)"

text \<open>Rotate and \<^verbatim>\<open>continue\<close> (lines 144 to 147 and 155 to 158). An exception of
  \<^verbatim>\<open>switch_account\<close> is caught by the \<^verbatim>\<open>except\<close> of line 173, which sleeps 60.\<close>

definition rotate_account :: "config \<Rightarrow> adder \<Rightarrow> adder" where
  "rotate_account cfg st =
     (case switch_account cfg st of
        Inr st1 \<Rightarrow> reselect cfg st1
      | Inl e \<Rightarrow> asyncio_sleep 60 st)"

text \<open>
  One turn of the outer \<^verbatim>\<open>while\<close> (lines 135 to 178): connect the client of
  \<open>session_file\<close>; rotate when it is not authorized or when the counter of
  \<open>current_phone\<close> has reached the quota; otherwise run the inner loop. Every exception
  inside the \<^verbatim>\<open>try\<close> is answered by a sleep of 60, and the client is disconnected in
  all cases.
\<close>

definition dispatch_round :: "config \<Rightarrow> world \<Rightarrow> adder \<Rightarrow> adder" where
  "dispatch_round cfg w st =
     (let st1 = st\<lparr>trace := trace st @ [Connect (session_file st)],
                    connections := Suc (connections st)\<rparr>;
          st2 =
            (case session_state w (connections st) (session_file st) of
               ConnectFailed \<Rightarrow> asyncio_sleep 60 st1
             | NotAuthorized \<Rightarrow> rotate_account cfg st1
             | EntityFailed \<Rightarrow> asyncio_sleep 60 st1
             | Ready \<Rightarrow>
                 (case map_of (daily_stats st1) (current_phone st1) of
                    None \<Rightarrow> asyncio_sleep 60 st1
                  | Some n \<Rightarrow>
                      (if n \<ge> max_adds_per_day_per_account cfg then rotate_account cfg st1
                       else (case add_members_loop cfg w st1 of
                               (None, st3) \<Rightarrow> st3
                             | (Some e, st3) \<Rightarrow> asyncio_sleep 60 st3))))
      in st2\<lparr>trace := trace st2 @ [Disconnect]\<rparr>)"

text \<open>
  The outer \<^verbatim>\<open>while\<close> may run forever, so it takes fuel: one unit per test of its
  condition, and \<open>None\<close> when the fuel runs out before the condition fails. \<open>rounds k\<close>
  is the state after at most \<open>k\<close> turns, whether or not the loop has ended by then.
\<close>

fun dispatch_loop :: "nat \<Rightarrow> config \<Rightarrow> world \<Rightarrow> adder \<Rightarrow> adder option" where
  "dispatch_loop 0 cfg w st = None"
| "dispatch_loop (Suc fuel) cfg w st =
     (if unfinished cfg st then dispatch_loop fuel cfg w (dispatch_round cfg w st)
      else Some st)"

fun rounds :: "nat \<Rightarrow> config \<Rightarrow> world \<Rightarrow> adder \<Rightarrow> adder" where
  "rounds 0 cfg w st = st"
| "rounds (Suc k) cfg w st =
     (if unfinished cfg st then rounds k cfg w (dispatch_round cfg w st) else st)"

text \<open>
  \<^verbatim>\<open>MemberAdder().run()\<close>: return at once when no candidate was loaded; IndexError
  for \<^verbatim>\<open>accounts[0]\<close> when no account is configured; otherwise the outer loop and the
  final checkpoint. \<open>StillRunning\<close> says that the fuel did not suffice.
\<close>

datatype run_result = NoMembersFound | Raised py_error | Completed adder | StillRunning

definition run_start :: "config \<Rightarrow> candidate list \<Rightarrow> string \<Rightarrow> adder" where
  "run_start cfg ms account0 =
     (adder_init cfg)\<lparr>members := ms, added_members := [], current_phone := account0,
                       session_file := session_path account0\<rparr>"

definition run :: "nat \<Rightarrow> config \<Rightarrow> world \<Rightarrow> candidate list option \<Rightarrow> run_result" where
  "run fuel cfg w file =
     (let ms = load_members file
      in if ms = [] then NoMembersFound
         else (case accounts cfg of
                 [] \<Rightarrow> Raised IndexError
               | account0 # _ \<Rightarrow>
                   (case dispatch_loop fuel cfg w (run_start cfg ms account0) of
                      None \<Rightarrow> StillRunning
                    | Some st \<Rightarrow> Completed (save_progress (added_members st) st))))"

section \<open>Auxiliary definitions\<close>

subsection \<open>What each strategy stores\<close>

text \<open>
  The definitions of this subsection are not code of the repository: they name, for a
  given remote group, the users that pass the filter of each strategy, in the order in
  which the strategy assigns them to \<open>all_members\<close>, and \<open>merge\<close> is that sequence of
  assignments. The lemmas below prove that the strategies do exactly these assignments.
\<close>

definition eligible_sender :: "message \<Rightarrow> tl_user list" where
  "eligible_sender m =
     (case sender m of
        Some (User u) \<Rightarrow> (if \<not> tl_bot u \<and> \<not> tl_deleted u then [u] else [])
      | _ \<Rightarrow> [])"

definition eligible_reactor :: "reaction \<Rightarrow> tl_user list" where
  "eligible_reactor r =
     (case peer r of User u \<Rightarrow> (if \<not> tl_bot u then [u] else []) | _ \<Rightarrow> [])"

definition eligible_participant :: "entity \<Rightarrow> tl_user list" where
  "eligible_participant e =
     (case e of
        User u \<Rightarrow> (if \<not> tl_bot u \<and> \<not> tl_deleted u then [u] else [])
      | _ \<Rightarrow> [])"

definition stored_by_recent :: "source_group \<Rightarrow> tl_user list" where
  "stored_by_recent g =
     (case recent_participants g of
        Returned users \<Rightarrow> concat (map eligible_participant users)
      | _ \<Rightarrow> [])"

definition stored_by_messages :: "source_group \<Rightarrow> nat \<Rightarrow> tl_user list" where
  "stored_by_messages g limit = concat (map eligible_sender (iter_messages g limit))"

definition stored_by_message_reactions :: "source_group \<Rightarrow> message \<Rightarrow> tl_user list" where
  "stored_by_message_reactions g m =
     (case message_reactions g (message_id m) of
        Returned rs \<Rightarrow> concat (map eligible_reactor rs)
      | _ \<Rightarrow> [])"

definition stored_by_reactions :: "source_group \<Rightarrow> nat \<Rightarrow> tl_user list" where
  "stored_by_reactions g limit =
     (if get_messages_fails g then []
      else concat (map (stored_by_message_reactions g) (take limit (history g))))"

definition stored_by_pattern :: "source_group \<Rightarrow> string \<Rightarrow> tl_user list" where
  "stored_by_pattern g pattern =
     (case search_participants g pattern of
        Returned users \<Rightarrow> concat (map eligible_participant users)
      | _ \<Rightarrow> [])"

definition stored_by_search :: "source_group \<Rightarrow> string list \<Rightarrow> tl_user list" where
  "stored_by_search g patterns = concat (map (stored_by_pattern g) patterns)"

definition stored_users :: "source_group \<Rightarrow> tl_user list" where
  "stored_users g =
     stored_by_recent g @ stored_by_messages g 3000 @ stored_by_reactions g 100
       @ stored_by_search g search_patterns"

definition merge :: "tl_user list \<Rightarrow> (int \<times> candidate) list \<Rightarrow> (int \<times> candidate) list" where
  "merge us d = fold (\<lambda>u. setitem (tl_id u) (user_to_dict u)) us d"

text \<open>The patterns queried, read off the recorded events.\<close>

fun queries :: "scrape_event list \<Rightarrow> string list" where
  "queries [] = []"
| "queries (Query p # es) = p # queries es"
| "queries (Sleep n # es) = queries es"

subsection \<open>Sample users and groups\<close>

definition alice :: tl_user where
  "alice = \<lparr>tl_id = 1, tl_access_hash = 11, tl_username = None, tl_first_name = Some ''Alice'',
     tl_last_name = None, tl_phone = None, tl_bot = False, tl_verified = False,
     tl_restricted = False, tl_scam = False, tl_fake = False, tl_premium = False,
     tl_deleted = False\<rparr>"

definition alice_later :: tl_user where
  "alice_later = alice\<lparr>tl_username := Some ''alice''\<rparr>"

definition bob :: tl_user where
  "bob = alice\<lparr>tl_id := 2, tl_access_hash := 22, tl_first_name := Some ''Bob''\<rparr>"

definition helper_bot :: tl_user where
  "helper_bot = alice\<lparr>tl_id := 3, tl_access_hash := 33, tl_first_name := Some ''Helper'',
     tl_bot := True\<rparr>"

definition quiet_group :: source_group where
  "quiet_group = \<lparr>recent_participants = Returned [], history = [], iter_fails_after = None,
     get_messages_fails = False, message_reactions = (\<lambda>i. Returned []),
     search_participants = (\<lambda>p. Returned [])\<rparr>"

definition duplicate_group :: source_group where
  "duplicate_group =
     quiet_group\<lparr>recent_participants := Returned [User alice, User bob, User alice_later]\<rparr>"

definition bot_group :: source_group where
  "bot_group =
     quiet_group\<lparr>recent_participants := Returned [User helper_bot, User bob],
       history := [\<lparr>message_id = 7, sender = Some (User helper_bot)\<rparr>],
       message_reactions := (\<lambda>i. Returned [\<lparr>peer = User helper_bot\<rparr>, \<lparr>peer = User alice\<rparr>]),
       search_participants := (\<lambda>p. Returned [User helper_bot])\<rparr>"

definition flooded_group :: source_group where
  "flooded_group =
     quiet_group\<lparr>search_participants :=
       (\<lambda>p. if p = ''a'' then FloodWait 30 else Returned [User bob])\<rparr>"

subsection \<open>The Dispatcher's requests and invariant\<close>

text \<open>The candidates of the invite requests made so far, and those among them whose
  request returned.\<close>

fun requested :: "adder_event list \<Rightarrow> candidate list" where
  "requested [] = []"
| "requested (Invite c u out # es) = u # requested es"
| "requested (e # es) = requested es"

fun accepted :: "adder_event list \<Rightarrow> candidate list" where
  "accepted [] = []"
| "accepted (Invite c u Invited # es) = u # accepted es"
| "accepted (e # es) = accepted es"

text \<open>In a well-paused sequence of events every rate-limited request is directly followed
  by a sleep of the duration that the server asked for.\<close>

fun well_paused :: "adder_event list \<Rightarrow> bool" where
  "well_paused [] = True"
| "well_paused (Invite c u (FloodWaitError s) # Slept n # es) = (n = s \<and> well_paused es)"
| "well_paused (Invite c u (FloodWaitError s) # es) = False"
| "well_paused (e # es) = well_paused es"

text \<open>Every outcome recorded in the events is an answer of the invite oracle.\<close>

definition honest :: "world \<Rightarrow> adder_event list \<Rightarrow> bool" where
  "honest w tr \<longleftrightarrow>
     (\<forall>c u out. Invite c u out \<in> set tr \<longrightarrow> (\<exists>k. out = invite_result w k c u))"

text \<open>The sleep that \<^verbatim>\<open>add_member\<close> makes after a request, by the way the request ended.\<close>

definition pause :: "config \<Rightarrow> world \<Rightarrow> nat \<Rightarrow> invite_outcome \<Rightarrow> adder_event list" where
  "pause cfg w k out =
     (case out of
        Invited \<Rightarrow>
          (if min_delay cfg \<le> max_delay cfg
           then [Slept (min_delay cfg + int (random_draw w k) mod (max_delay cfg - min_delay cfg + 1))]
           else [])
      | FloodWaitError seconds \<Rightarrow> [Slept seconds]
      | PeerFloodError \<Rightarrow> [Slept 60]
      | _ \<Rightarrow> [])"

text \<open>When \<^verbatim>\<open>add_member\<close> returns True.\<close>

definition succeeds :: "config \<Rightarrow> invite_outcome \<Rightarrow> bool" where
  "succeeds cfg out \<longleftrightarrow> out = Invited \<and> min_delay cfg \<le> max_delay cfg"

text \<open>
  The invariant of a run on the candidate list \<open>ms\<close>: the rotation index and the
  current phone are those of a configured account, every configured account has one
  counter, no counter exceeds the quota, the counters add up to the number of added
  candidates, the candidates requested so far followed by those still queued are \<open>ms\<close>,
  the added candidates are those whose request succeeded, their number does not exceed
  the target, and the events are well-paused and honest.
\<close>

definition consistent :: "config \<Rightarrow> world \<Rightarrow> candidate list \<Rightarrow> adder \<Rightarrow> bool" where
  "consistent cfg w ms st \<longleftrightarrow>
     accounts cfg \<noteq> [] \<and>
     current_account_index st < length (accounts cfg) \<and>
     current_phone st \<in> set (accounts cfg) \<and>
     session_file st = session_path (current_phone st) \<and>
     fst ` set (daily_stats st) = set (accounts cfg) \<and>
     distinct (map fst (daily_stats st)) \<and>
     (\<forall>n \<in> snd ` set (daily_stats st). n \<le> max 0 (max_adds_per_day_per_account cfg)) \<and>
     sum_list (map snd (daily_stats st)) = int (length (added_members st)) \<and>
     requested (trace st) @ members st = ms \<and>
     added_members st = (if min_delay cfg \<le> max_delay cfg then accepted (trace st) else []) \<and>
     int (length (added_members st)) \<le> max 0 (members_to_add cfg) \<and>
     well_paused (trace st) \<and>
     honest w (trace st)"

text \<open>The counter of \<open>current_phone\<close> is below the quota.\<close>

definition quota_left :: "config \<Rightarrow> adder \<Rightarrow> bool" where
  "quota_left cfg st \<longleftrightarrow>
     (case map_of (daily_stats st) (current_phone st) of
        None \<Rightarrow> False
      | Some n \<Rightarrow> n < max_adds_per_day_per_account cfg)"

text \<open>The current phone is the account at the rotation index (false between a flood-of-requests
  rotation and the next rotation of \<^verbatim>\<open>run\<close>).\<close>

definition synced :: "config \<Rightarrow> adder \<Rightarrow> bool" where
  "synced cfg st \<longleftrightarrow> current_phone st = accounts cfg ! current_account_index st"

text \<open>The loop condition holds and every counter has reached the quota.\<close>

definition exhausted :: "config \<Rightarrow> adder \<Rightarrow> bool" where
  "exhausted cfg st \<longleftrightarrow>
     unfinished cfg st \<and>
     (\<forall>n \<in> snd ` set (daily_stats st). max_adds_per_day_per_account cfg \<le> n)"

subsection \<open>Sample configurations and worlds\<close>

definition carol :: tl_user where
  "carol = alice\<lparr>tl_id := 4, tl_access_hash := 44, tl_first_name := Some ''Carol''\<rparr>"

definition solo_config :: config where
  "solo_config =
     \<lparr>accounts = [''+100''], members_to_add = 2, min_delay = 5, max_delay = 5,
      max_adds_per_day_per_account = 1\<rparr>"

definition short_quota_config :: config where
  "short_quota_config = solo_config\<lparr>members_to_add := 3, max_adds_per_day_per_account := 2\<rparr>"

definition roomy_config :: config where
  "roomy_config = solo_config\<lparr>accounts := [''+100'', ''+200''], max_adds_per_day_per_account := 5\<rparr>"

definition friendly_world :: world where
  "friendly_world =
     \<lparr>session_state = (\<lambda>k s. Ready), invite_result = (\<lambda>k s u. Invited),
      random_draw = (\<lambda>k. 0)\<rparr>"

definition flooding_world :: world where
  "flooding_world =
     friendly_world\<lparr>invite_result := (\<lambda>k s u. if k = 0 then FloodWaitError 30 else Invited)\<rparr>"

definition peer_flood_world :: world where
  "peer_flood_world =
     friendly_world\<lparr>invite_result := (\<lambda>k s u. if k = 0 then PeerFloodError else Invited)\<rparr>"

text \<open>The state in which the sample run on \<open>roomy_config\<close> and \<open>flooding_world\<close> ends.\<close>

definition flooded_final :: adder where
  "flooded_final =
     \<lparr>current_account_index = 0,
      daily_stats = [(''+100'', 1), (''+200'', 0)],
      members = [],
      added_members = [user_to_dict bob],
      current_phone = ''+100'',
      session_file = session_path ''+100'',
      progress_file =
        Some \<lparr>saved_added_members = [user_to_dict bob],
              saved_daily_stats = [(''+100'', 1), (''+200'', 0)]\<rparr>,
      trace =
        [Connect (session_path ''+100''),
         Invite (session_path ''+100'') (user_to_dict alice) (FloodWaitError 30), Slept 30,
         Invite (session_path ''+100'') (user_to_dict bob) Invited, Slept 5,
         Disconnect],
      connections = 1,
      requests = 2\<rparr>"

section \<open>Properties of the Collector\<close>

lemma map_of_setitem: "map_of (setitem k v d) = (map_of d)(k \<mapsto> v)"
  by (induction d) (auto simp: fun_eq_iff)

lemma keys_setitem:
  "map fst (setitem k v d) = (if k \<in> fst ` set d then map fst d else map fst d @ [k])"
  by (induction d) force+

lemma length_setitem:
  "length (setitem k v d) = (if k \<in> fst ` set d then length d else Suc (length d))"
  by (induction d) force+

lemma values_setitem: "snd ` set (setitem k v d) \<subseteq> insert v (snd ` set d)"
proof (induction d)
  case Nil
  then show ?case by simp
next
  case (Cons p d)
  then show ?case by (cases p) auto
qed

lemma merge_Nil [simp]: "merge [] d = d"
  by (simp add: merge_def)

lemma merge_Cons [simp]: "merge (u # us) d = merge us (setitem (tl_id u) (user_to_dict u) d)"
  by (simp add: merge_def)

lemma merge_append [simp]: "merge (us @ vs) d = merge vs (merge us d)"
  by (simp add: merge_def)

lemma all_members_store [simp]:
  "all_members (store u st) = merge [u] (all_members st)"
  by (simp add: store_def)

lemma events_store [simp]: "events (store u st) = events st"
  by (simp add: store_def)

lemma from_message_members:
  "all_members (from_message m st) = merge (eligible_sender m) (all_members st)"
  by (simp add: eligible_sender_def split: option.splits entity.splits)

lemma from_reaction_members:
  "all_members (from_reaction r st) = merge (eligible_reactor r) (all_members st)"
  by (simp add: eligible_reactor_def split: entity.splits)

lemma from_participant_members:
  "all_members (from_participant e st) = merge (eligible_participant e) (all_members st)"
  by (simp add: eligible_participant_def split: entity.splits)

lemma fold_members:
  assumes "\<And>x st. all_members (f x st) = merge (h x) (all_members st)"
  shows "all_members (fold f xs st) = merge (concat (map h xs)) (all_members st)"
  using assms by (induction xs arbitrary: st) simp_all

lemma messages_members:
  "all_members (get_members_from_messages g limit st) =
     merge (stored_by_messages g limit) (all_members st)"
  unfolding get_members_from_messages_def stored_by_messages_def
  by (rule fold_members) (rule from_message_members)

lemma reactions_of_message_members:
  "all_members (reactions_of_message g m st) =
     merge (stored_by_message_reactions g m) (all_members st)"
  by (simp add: reactions_of_message_def stored_by_message_reactions_def
      fold_members [where h = eligible_reactor, OF from_reaction_members] split: rpc.splits)

lemma reactions_members:
  "all_members (get_members_from_reactions g limit st) =
     merge (stored_by_reactions g limit) (all_members st)"
  by (simp add: get_members_from_reactions_def stored_by_reactions_def
      fold_members [where h = "stored_by_message_reactions g", OF reactions_of_message_members])

lemma participants_members:
  "all_members (fold from_participant users st) =
     merge (concat (map eligible_participant users)) (all_members st)"
  by (rule fold_members) (rule from_participant_members)

lemma recent_members:
  "all_members (get_members_from_recent g st) = merge (stored_by_recent g) (all_members st)"
  by (simp add: get_members_from_recent_def stored_by_recent_def participants_members
      split: rpc.splits)

lemma search_pattern_members:
  "all_members (search_pattern g p st) = merge (stored_by_pattern g p) (all_members st)"
  by (simp add: search_pattern_def stored_by_pattern_def sleep_def participants_members Let_def
      split: rpc.splits)

lemma search_loop_members:
  "all_members (search_loop g ps st) = merge (stored_by_search g ps) (all_members st)"
  by (induction ps arbitrary: st) (simp_all add: stored_by_search_def search_pattern_members)

lemma search_members:
  "all_members (get_members_by_search g st) =
     merge (stored_by_search g search_patterns) (all_members st)"
  by (simp add: get_members_by_search_def search_loop_members)

lemma collect_members:
  "all_members (collect g st) = merge (stored_users g) (all_members st)"
  by (simp add: collect_def stored_users_def search_members reactions_members
      messages_members recent_members)

lemma find_append:
  "find P (xs @ ys) = (case find P xs of Some x \<Rightarrow> Some x | None \<Rightarrow> find P ys)"
  by (induction xs) simp_all

lemma map_of_merge:
  "map_of (merge us d) k =
     (case find (\<lambda>u. tl_id u = k) (rev us) of
        Some u \<Rightarrow> Some (user_to_dict u)
      | None \<Rightarrow> map_of d k)"
proof (induction us arbitrary: d)
  case Nil
  then show ?case by simp
next
  case (Cons u us)
  show ?case
    by (simp add: Cons.IH map_of_setitem find_append split: option.splits)
qed

lemma keyset_setitem: "fst ` set (setitem k v d) = insert k (fst ` set d)"
  by (induction d) force+

lemma keys_merge: "fst ` set (merge us d) = fst ` set d \<union> tl_id ` set us"
  by (induction us arbitrary: d) (simp_all add: keyset_setitem)

lemma keys_merge_present:
  "tl_id ` set us \<subseteq> fst ` set d \<Longrightarrow> map fst (merge us d) = map fst d"
proof (induction us arbitrary: d)
  case Nil
  then show ?case by simp
next
  case (Cons u us)
  have k: "map fst (setitem (tl_id u) (user_to_dict u) d) = map fst d"
    using Cons.prems by (simp add: keys_setitem)
  have "fst ` set (setitem (tl_id u) (user_to_dict u) d) = fst ` set d"
    using Cons.prems by (simp add: keyset_setitem insert_absorb)
  with Cons.prems have "tl_id ` set us \<subseteq> fst ` set (setitem (tl_id u) (user_to_dict u) d)"
    by simp
  from Cons.IH [OF this] k show ?case by simp
qed

lemma distinct_setitem:
  "distinct (map fst d) \<Longrightarrow> distinct (map fst (setitem k v d))"
  by (simp add: keys_setitem)

lemma distinct_merge: "distinct (map fst d) \<Longrightarrow> distinct (map fst (merge us d))"
  by (induction us arbitrary: d) (simp_all add: distinct_setitem)

lemma length_merge_empty: "length (merge us []) = card (tl_id ` set us)"
proof -
  have "distinct (map fst (merge us []))"
    by (rule distinct_merge) simp
  then have "card (set (map fst (merge us []))) = length (map fst (merge us []))"
    by (rule distinct_card)
  moreover have "set (map fst (merge us [])) = tl_id ` set us"
    using keys_merge [of us "[]"] by simp
  ultimately show ?thesis by simp
qed

lemma merge_twice_keys: "map fst (merge us (merge us d)) = map fst (merge us d)"
  by (rule keys_merge_present) (simp add: keys_merge)

lemma merge_twice_map_of: "map_of (merge us (merge us d)) = map_of (merge us d)"
  by (rule ext) (simp add: map_of_merge split: option.splits)

lemma merge_twice_length: "length (merge us (merge us d)) = length (merge us d)"
proof -
  have "length (map fst (merge us (merge us d))) = length (map fst (merge us d))"
    by (simp only: merge_twice_keys)
  then show ?thesis by simp
qed

lemma values_merge: "snd ` set (merge us d) \<subseteq> snd ` set d \<union> user_to_dict ` set us"
proof (induction us arbitrary: d)
  case Nil
  then show ?case by simp
next
  case (Cons u us)
  have "snd ` set (merge us (setitem (tl_id u) (user_to_dict u) d))
      \<subseteq> snd ` set (setitem (tl_id u) (user_to_dict u) d) \<union> user_to_dict ` set us"
    by (rule Cons.IH)
  also have "\<dots> \<subseteq> insert (user_to_dict u) (snd ` set d) \<union> user_to_dict ` set us"
    using values_setitem [of "tl_id u" "user_to_dict u" d] by blast
  finally show ?case by auto
qed

lemma bots_merge:
  assumes "\<And>u. u \<in> set us \<Longrightarrow> \<not> tl_bot u"
  shows "set (filter bot (map snd (merge us d))) \<subseteq> set (filter bot (map snd d))"
proof
  fix c
  assume "c \<in> set (filter bot (map snd (merge us d)))"
  then have c: "c \<in> snd ` set (merge us d)" and b: "bot c"
    by simp_all
  from c values_merge [of us d] have "c \<in> snd ` set d \<or> c \<in> user_to_dict ` set us"
    by blast
  moreover have "c \<notin> user_to_dict ` set us"
  proof
    assume "c \<in> user_to_dict ` set us"
    then obtain u where "u \<in> set us" and "c = user_to_dict u"
      by blast
    with assms b show False by (simp add: user_to_dict_def)
  qed
  ultimately show "c \<in> set (filter bot (map snd d))"
    using b by simp
qed

lemma eligible_sender_no_bot: "u \<in> set (eligible_sender m) \<Longrightarrow> \<not> tl_bot u"
  by (auto simp: eligible_sender_def split: option.splits entity.splits if_splits)

lemma eligible_reactor_no_bot: "u \<in> set (eligible_reactor r) \<Longrightarrow> \<not> tl_bot u"
  by (auto simp: eligible_reactor_def split: entity.splits if_splits)

lemma eligible_participant_no_bot: "u \<in> set (eligible_participant e) \<Longrightarrow> \<not> tl_bot u"
  by (auto simp: eligible_participant_def split: entity.splits if_splits)

lemma stored_by_recent_no_bot: "u \<in> set (stored_by_recent g) \<Longrightarrow> \<not> tl_bot u"
  by (auto simp: stored_by_recent_def split: rpc.splits dest: eligible_participant_no_bot)

lemma stored_by_messages_no_bot: "u \<in> set (stored_by_messages g limit) \<Longrightarrow> \<not> tl_bot u"
  by (auto simp: stored_by_messages_def dest: eligible_sender_no_bot)

lemma stored_by_message_reactions_no_bot:
  "u \<in> set (stored_by_message_reactions g m) \<Longrightarrow> \<not> tl_bot u"
  by (auto simp: stored_by_message_reactions_def split: rpc.splits dest: eligible_reactor_no_bot)

lemma stored_by_reactions_no_bot: "u \<in> set (stored_by_reactions g limit) \<Longrightarrow> \<not> tl_bot u"
  by (auto simp: stored_by_reactions_def split: if_splits
      dest: stored_by_message_reactions_no_bot)

lemma stored_by_pattern_no_bot: "u \<in> set (stored_by_pattern g p) \<Longrightarrow> \<not> tl_bot u"
  by (auto simp: stored_by_pattern_def split: rpc.splits dest: eligible_participant_no_bot)

lemma stored_by_search_no_bot: "u \<in> set (stored_by_search g ps) \<Longrightarrow> \<not> tl_bot u"
  by (auto simp: stored_by_search_def dest: stored_by_pattern_no_bot)

lemma stored_users_no_bot: "u \<in> set (stored_users g) \<Longrightarrow> \<not> tl_bot u"
  by (auto simp: stored_users_def dest: stored_by_recent_no_bot stored_by_messages_no_bot
      stored_by_reactions_no_bot stored_by_search_no_bot)

text \<open>
  Claim C7. No strategy adds an entry with \<open>bot = True\<close>: whatever entries of the
  candidate set have the flag after a strategy had it before; a run that starts from the
  empty set ends with no such entry, and neither has the list it writes to the
  candidate file.
\<close>

theorem collector_never_keeps_a_bot:
  "set (filter bot (members_list (get_members_from_recent g st)))
     \<subseteq> set (filter bot (members_list st)) \<and>
   set (filter bot (members_list (get_members_from_messages g limit st)))
     \<subseteq> set (filter bot (members_list st)) \<and>
   set (filter bot (members_list (get_members_from_reactions g limit st)))
     \<subseteq> set (filter bot (members_list st)) \<and>
   set (filter bot (members_list (get_members_by_search g st)))
     \<subseteq> set (filter bot (members_list st)) \<and>
   filter bot (members_list (collect g scraper_init)) = [] \<and>
   (\<forall>ms. scraper_run accs s g = Inr (Some ms) \<longrightarrow> filter bot ms = [])"
proof -
  have a: "set (filter bot (members_list (get_members_from_recent g st)))
     \<subseteq> set (filter bot (members_list st))"
    unfolding members_list_def recent_members
    by (rule bots_merge) (simp add: stored_by_recent_no_bot)
  have b: "set (filter bot (members_list (get_members_from_messages g limit st)))
     \<subseteq> set (filter bot (members_list st))"
    unfolding members_list_def messages_members
    by (rule bots_merge) (simp add: stored_by_messages_no_bot)
  have c: "set (filter bot (members_list (get_members_from_reactions g limit st)))
     \<subseteq> set (filter bot (members_list st))"
    unfolding members_list_def reactions_members
    by (rule bots_merge) (simp add: stored_by_reactions_no_bot)
  have d: "set (filter bot (members_list (get_members_by_search g st)))
     \<subseteq> set (filter bot (members_list st))"
    unfolding members_list_def search_members
    by (rule bots_merge) (simp add: stored_by_search_no_bot)
  have "set (filter bot (members_list (collect g scraper_init)))
     \<subseteq> set (filter bot (members_list scraper_init))"
    unfolding members_list_def collect_members
    by (rule bots_merge) (simp add: stored_users_no_bot)
  then have e: "filter bot (members_list (collect g scraper_init)) = []"
    by (simp add: members_list_def scraper_init_def del: set_filter)
  have f: "\<forall>ms. scraper_run accs s g = Inr (Some ms) \<longrightarrow> filter bot ms = []"
    using e
    by (auto simp: scraper_run_def Let_def split: list.splits session_outcome.splits if_splits)
  from a b c d e f show ?thesis by blast
qed

text \<open>Claim C7 at a group where a bot is a recent participant, the sender of a message,
  the author of a reaction and a result of every search.\<close>

theorem collector_never_keeps_a_bot_witness:
  "scraper_run [''+100''] Ready bot_group = Inr (Some [user_to_dict bob, user_to_dict alice]) \<and>
   filter bot [user_to_dict bob, user_to_dict alice] = []"
proof -
  have "stored_users bot_group = [bob, alice]"
    by (simp add: stored_users_def stored_by_recent_def stored_by_messages_def
        stored_by_reactions_def stored_by_message_reactions_def stored_by_search_def
        stored_by_pattern_def iter_messages_def bot_group_def quiet_group_def
        eligible_participant_def eligible_sender_def eligible_reactor_def alice_def bob_def
        helper_bot_def)
  then have "all_members (collect bot_group scraper_init) =
      [(2, user_to_dict bob), (1, user_to_dict alice)]"
    by (simp add: collect_members scraper_init_def) (simp add: alice_def bob_def)
  then have r: "scraper_run [''+100''] Ready bot_group
      = Inr (Some [user_to_dict bob, user_to_dict alice])"
    by (simp add: scraper_run_def members_list_def)
  with collector_never_keeps_a_bot [of bot_group scraper_init 0 "[''+100'']" Ready] show ?thesis
    by simp
qed

lemma stored_duplicate_group: "stored_users duplicate_group = [alice, bob, alice_later]"
  by (simp add: stored_users_def stored_by_recent_def stored_by_messages_def
      stored_by_reactions_def stored_by_search_def stored_by_pattern_def iter_messages_def
      duplicate_group_def quiet_group_def eligible_participant_def alice_def alice_later_def
      bob_def)

text \<open>
  Claim C1, as stated, fails. The first strategy receives the users with ids 1, 2, 1,
  the two records of id 1 differing in the username. The file written holds two entries,
  and the entry of id 1 is the record seen last, not the one seen first.
\<close>

theorem first_write_wins_counterexample:
  "stored_users duplicate_group = [alice, bob, alice_later] \<and>
   scraper_run [''+100''] Ready duplicate_group
     = Inr (Some [user_to_dict alice_later, user_to_dict bob]) \<and>
   user_to_dict alice_later \<noteq> user_to_dict alice"
proof -
  have "all_members (collect duplicate_group scraper_init) =
      [(1, user_to_dict alice_later), (2, user_to_dict bob)]"
    by (simp add: collect_members stored_duplicate_group scraper_init_def)
      (simp add: alice_def alice_later_def bob_def)
  then have "scraper_run [''+100''] Ready duplicate_group
      = Inr (Some [user_to_dict alice_later, user_to_dict bob])"
    by (simp add: scraper_run_def members_list_def)
  moreover have "user_to_dict alice_later \<noteq> user_to_dict alice"
    by (simp add: user_to_dict_def alice_later_def alice_def)
  ultimately show ?thesis
    using stored_duplicate_group by simp
qed

text \<open>
  Claim C1, amended. The assignment is unconditional in all four strategies, so the
  record stored under an id is the one of the last user stored with that id
  (last write wins), also when the id was present before the pass; the set has one entry
  per distinct id.
\<close>

theorem last_write_wins:
  "map_of (all_members (collect g scraper_init)) k =
     map_option user_to_dict (find (\<lambda>u. tl_id u = k) (rev (stored_users g))) \<and>
   length (all_members (collect g scraper_init)) = card (tl_id ` set (stored_users g)) \<and>
   map_of (all_members (get_members_from_messages g limit st)) k =
     (case find (\<lambda>u. tl_id u = k) (rev (stored_by_messages g limit)) of
        Some u \<Rightarrow> Some (user_to_dict u)
      | None \<Rightarrow> map_of (all_members st) k) \<and>
   map_of (all_members (get_members_by_search g st)) k =
     (case find (\<lambda>u. tl_id u = k) (rev (stored_by_search g search_patterns)) of
        Some u \<Rightarrow> Some (user_to_dict u)
      | None \<Rightarrow> map_of (all_members st) k)"
  by (simp add: collect_members messages_members search_members map_of_merge
      length_merge_empty scraper_init_def split: option.splits)

text \<open>The amended claim C1 at the sample group with the duplicate id.\<close>

theorem last_write_wins_witness:
  "map_of (all_members (collect duplicate_group scraper_init)) 1 = Some (user_to_dict alice_later) \<and>
   length (all_members (collect duplicate_group scraper_init)) = 2"
proof -
  have "card (tl_id ` set [alice, bob, alice_later]) = 2"
    by (simp add: alice_def bob_def alice_later_def card_insert_if)
  then show ?thesis
    using last_write_wins [of duplicate_group 1 0 scraper_init]
    by (simp add: stored_duplicate_group) (simp add: alice_def bob_def alice_later_def)
qed

text \<open>
  Claim C9. Running a strategy (or the whole sequence of four) a second time on the same
  data of the remote group changes neither the number of entries nor the record stored
  under any id.
\<close>

theorem merging_a_pass_twice:
  "length (all_members (get_members_from_messages g limit (get_members_from_messages g limit st)))
     = length (all_members (get_members_from_messages g limit st)) \<and>
   map_of (all_members (get_members_from_messages g limit (get_members_from_messages g limit st)))
     = map_of (all_members (get_members_from_messages g limit st)) \<and>
   length (all_members (get_members_from_recent g (get_members_from_recent g st)))
     = length (all_members (get_members_from_recent g st)) \<and>
   map_of (all_members (get_members_from_recent g (get_members_from_recent g st)))
     = map_of (all_members (get_members_from_recent g st)) \<and>
   length (all_members (collect g (collect g st))) = length (all_members (collect g st)) \<and>
   map_of (all_members (collect g (collect g st))) = map_of (all_members (collect g st))"
  by (simp add: messages_members recent_members collect_members merge_twice_length
      merge_twice_map_of)

lemma queries_append: "queries (es @ fs) = queries es @ queries fs"
  by (induction es rule: queries.induct) simp_all

lemma queries_fold_participants:
  "events (fold from_participant users st) = events st"
  by (induction users arbitrary: st) (simp_all split: entity.splits)

lemma queries_search_pattern:
  "queries (events (search_pattern g p st)) = queries (events st) @ [p]"
  by (simp add: search_pattern_def sleep_def Let_def queries_append queries_fold_participants
      split: rpc.splits)

lemma queries_search_loop:
  "queries (events (search_loop g ps st)) = queries (events st) @ ps"
  by (induction ps arbitrary: st) (simp_all add: queries_search_pattern)

lemma count_list_distinct:
  "distinct xs \<Longrightarrow> count_list xs x = (if x \<in> set xs then 1 else 0)"
  by (induction xs) auto

lemma distinct_search_patterns: "distinct search_patterns"
  by (simp add: search_patterns_def)

text \<open>
  Claim C6, amended. The search queries every pattern of the list exactly once, in the
  order of the list, whatever the answers are; on a rate-limit signal for a pattern it
  records the pause the server asked for and goes on with the patterns that follow, the
  candidate set unchanged by that turn. The pattern is not queried again and the
  enumeration is not aborted.
\<close>

theorem flood_wait_moves_to_next_pattern:
  "queries (events (get_members_by_search g scraper_init)) = search_patterns \<and>
   count_list (queries (events (get_members_by_search g scraper_init))) p =
     (if p \<in> set search_patterns then 1 else 0) \<and>
   (search_participants g p = FloodWait w \<longrightarrow>
      search_loop g (p # rest) st =
        search_loop g rest (st\<lparr>events := events st @ [Query p, Sleep w]\<rparr>))"
proof -
  have q: "queries (events (get_members_by_search g scraper_init)) = search_patterns"
    by (simp add: get_members_by_search_def queries_search_loop scraper_init_def)
  have "count_list search_patterns p = (if p \<in> set search_patterns then 1 else 0)"
    using distinct_search_patterns by (rule count_list_distinct)
  with q show ?thesis
    by (simp add: search_pattern_def sleep_def)
qed

text \<open>The amended claim C6 at a group whose search is rate-limited on the first pattern.\<close>

theorem flood_wait_moves_to_next_pattern_witness:
  "search_participants flooded_group ''a'' = FloodWait 30 \<and>
   count_list (queries (events (get_members_by_search flooded_group scraper_init))) ''a'' = 1 \<and>
   search_loop flooded_group [''a'', ''e''] scraper_init =
     search_loop flooded_group [''e''] (scraper_init\<lparr>events := [Query ''a'', Sleep 30]\<rparr>)"
  using flood_wait_moves_to_next_pattern [of flooded_group "''a''" 30 "[''e'']" scraper_init]
  by (simp add: flooded_group_def quiet_group_def search_patterns_def scraper_init_def)

text \<open>
  Claim C6, as stated, fails: after the pause of 30 for the pattern \<open>a\<close> the next query
  is for the pattern \<open>e\<close>, not for \<open>a\<close> again.
\<close>

theorem flood_wait_retry_counterexample:
  "search_participants flooded_group ''a'' = FloodWait 30 \<and>
   take 3 (events (get_members_by_search flooded_group scraper_init)) =
     [Query ''a'', Sleep 30, Query ''e'']"
  by (simp add: get_members_by_search_def search_patterns_def search_pattern_def sleep_def
      flooded_group_def quiet_group_def scraper_init_def store_def bob_def alice_def)

section \<open>Properties of the Dispatcher\<close>

subsection \<open>One attempt, written out\<close>

lemma add_member_eq:
  assumes "accounts cfg \<noteq> []"
  shows "add_member cfg w client u st =
     (Inr (succeeds cfg (invite_result w (requests st) client u)),
      st\<lparr>trace := trace st @ Invite client u (invite_result w (requests st) client u)
                  # pause cfg w (requests st) (invite_result w (requests st) client u),
         requests := Suc (requests st),
         current_account_index :=
           (if invite_result w (requests st) client u = PeerFloodError
            then (current_account_index st + 1) mod length (accounts cfg)
            else current_account_index st)\<rparr>)"
  using assms
  by (cases "invite_result w (requests st) client u")
    (simp_all add: add_member_def succeeds_def pause_def randint_def asyncio_sleep_def
      switch_account_def Let_def)

lemma add_next_eq:
  assumes m: "members st = u # rest"
    and a: "accounts cfg \<noteq> []"
    and n: "map_of (daily_stats st) (current_phone st) = Some n"
  shows "add_next cfg w st =
     (let out = invite_result w (requests st) (session_file st) u;
          ok = succeeds cfg out;
          stats = (if ok then setitem (current_phone st) (n + 1) (daily_stats st)
                   else daily_stats st)
      in (if (if ok then n + 1 else n) \<ge> max_adds_per_day_per_account cfg then Break
          else Continue,
          st\<lparr>members := rest,
             trace := trace st @ Invite (session_file st) u out # pause cfg w (requests st) out,
             requests := Suc (requests st),
             current_account_index :=
               (if out = PeerFloodError
                then (current_account_index st + 1) mod length (accounts cfg)
                else current_account_index st),
             added_members := added_members st @ (if ok then [u] else []),
             daily_stats := stats,
             progress_file :=
               (if ok then Some \<lparr>saved_added_members = added_members st @ [u],
                                  saved_daily_stats = stats\<rparr>
                else progress_file st)\<rparr>))"
proof (cases "succeeds cfg (invite_result w (requests st) (session_file st) u)")
  case True
  then show ?thesis
    using m n
    by (simp add: add_next_def add_member_eq [OF a] count_success_def save_progress_def
        Let_def map_of_setitem)
next
  case False
  then show ?thesis
    using m n
    by (simp add: add_next_def add_member_eq [OF a] Let_def)
qed

lemma well_paused_append:
  "well_paused tr \<Longrightarrow> well_paused es \<Longrightarrow> well_paused (tr @ es)"
  by (induction tr rule: well_paused.induct) auto

lemma well_paused_follow:
  "well_paused (pre @ Invite c u (FloodWaitError s) # post) \<Longrightarrow> \<exists>post'. post = Slept s # post'"
proof (induction pre rule: well_paused.induct)
  case 1
  then show ?case
    by (cases post rule: well_paused.cases) auto
qed auto

lemma well_paused_step: "well_paused (Invite c u out # pause cfg w k out)"
  by (cases out) (simp_all add: pause_def)

lemma honest_append: "honest w (tr @ es) \<longleftrightarrow> honest w tr \<and> honest w es"
  by (auto simp: honest_def)

lemma honest_step: "honest w (Invite c u (invite_result w k c u) # pause cfg w k out)"
  by (cases out) (auto simp: honest_def pause_def)

lemma requested_append: "requested (es @ fs) = requested es @ requested fs"
  by (induction es rule: requested.induct) simp_all

lemma accepted_append: "accepted (es @ fs) = accepted es @ accepted fs"
  by (induction es rule: accepted.induct) simp_all

lemma requested_pause [simp]: "requested (pause cfg w k out) = []"
  by (simp add: pause_def split: invite_outcome.splits)

lemma accepted_pause [simp]: "accepted (pause cfg w k out) = []"
  by (simp add: pause_def split: invite_outcome.splits)

lemma accepted_Invite: "accepted (Invite c u out # es) = (if out = Invited then u # accepted es else accepted es)"
  by (cases out) simp_all

lemma sum_setitem:
  fixes n :: int
  shows "map_of d p = Some n \<Longrightarrow>
    sum_list (map snd (setitem p m d)) = sum_list (map snd d) - n + m"
  by (induction d) (auto split: if_splits)

lemma map_of_keys: "map_of d p = Some n \<Longrightarrow> p \<in> fst ` set d"
  by (metis map_of_eq_None_iff option.distinct(1))

lemma add_next_consistent:
  assumes c: "consistent cfg w ms st" and u: "unfinished cfg st" and q: "quota_left cfg st"
  shows "consistent cfg w ms (snd (add_next cfg w st)) \<and>
    (fst (add_next cfg w st) = Continue \<and> quota_left cfg (snd (add_next cfg w st))
       \<or> fst (add_next cfg w st) = Break) \<and>
    members (snd (add_next cfg w st)) = tl (members st) \<and>
    current_phone (snd (add_next cfg w st)) = current_phone st \<and>
    session_file (snd (add_next cfg w st)) = session_file st"
proof -
  from u obtain x rest where m: "members st = x # rest"
    by (cases "members st") (simp_all add: unfinished_def)
  from q obtain n where n: "map_of (daily_stats st) (current_phone st) = Some n"
    and nq: "n < max_adds_per_day_per_account cfg"
    by (auto simp: quota_left_def split: option.splits)
  from c have a: "accounts cfg \<noteq> []"
    and c2: "current_account_index st < length (accounts cfg)"
    and c3: "current_phone st \<in> set (accounts cfg)"
    and c4: "session_file st = session_path (current_phone st)"
    and c5: "fst ` set (daily_stats st) = set (accounts cfg)"
    and c6: "distinct (map fst (daily_stats st))"
    and c7: "\<forall>v \<in> snd ` set (daily_stats st). v \<le> max 0 (max_adds_per_day_per_account cfg)"
    and c8: "sum_list (map snd (daily_stats st)) = int (length (added_members st))"
    and c9: "requested (trace st) @ members st = ms"
    and c10: "added_members st = (if min_delay cfg \<le> max_delay cfg then accepted (trace st) else [])"
    and c11: "int (length (added_members st)) \<le> max 0 (members_to_add cfg)"
    and c12: "well_paused (trace st)"
    and c13: "honest w (trace st)"
    unfolding consistent_def by blast+
  define out where "out = invite_result w (requests st) (session_file st) x"
  define st' where "st' = snd (add_next cfg w st)"
  define stats' where "stats' = setitem (current_phone st) (n + 1) (daily_stats st)"
  note eq = add_next_eq [OF m a n, of w, folded out_def stats'_def]
  have f_members: "members st' = rest"
    and f_trace: "trace st' = trace st @ Invite (session_file st) x out # pause cfg w (requests st) out"
    and f_index: "current_account_index st' =
      (if out = PeerFloodError then (current_account_index st + 1) mod length (accounts cfg)
       else current_account_index st)"
    and f_added: "added_members st' = added_members st @ (if succeeds cfg out then [x] else [])"
    and f_stats: "daily_stats st' = (if succeeds cfg out then stats' else daily_stats st)"
    and f_phone: "current_phone st' = current_phone st"
    and f_file: "session_file st' = session_file st"
    and f_flow: "fst (add_next cfg w st) =
      (if (if succeeds cfg out then n + 1 else n) \<ge> max_adds_per_day_per_account cfg
       then Break else Continue)"
    unfolding st'_def by (simp_all add: eq Let_def)
  have keys: "fst ` set stats' = set (accounts cfg)"
    unfolding stats'_def using c5 map_of_keys [OF n] by (simp add: keyset_setitem insert_absorb)
  have dist: "distinct (map fst stats')"
    unfolding stats'_def using c6 by (rule distinct_setitem)
  have vals: "\<forall>v \<in> snd ` set stats'. v \<le> max 0 (max_adds_per_day_per_account cfg)"
  proof
    fix v
    assume "v \<in> snd ` set stats'"
    with values_setitem [of "current_phone st" "n + 1" "daily_stats st"]
    have "v = n + 1 \<or> v \<in> snd ` set (daily_stats st)"
      unfolding stats'_def by blast
    with c7 nq show "v \<le> max 0 (max_adds_per_day_per_account cfg)"
      by auto
  qed
  have total: "sum_list (map snd stats') = int (length (added_members st)) + 1"
    unfolding stats'_def using sum_setitem [OF n, of "n + 1"] c8 by simp
  have look: "map_of stats' (current_phone st) = Some (n + 1)"
    unfolding stats'_def by (simp add: map_of_setitem)
  have len: "int (length (added_members st)) < members_to_add cfg"
    using u by (simp add: unfinished_def)
  have req: "requested (trace st') @ members st' = ms"
    using c9 m by (simp add: f_trace f_members requested_append)
  have acc: "accepted (trace st') = accepted (trace st) @ (if out = Invited then [x] else [])"
    by (simp add: f_trace accepted_append accepted_Invite)
  have added: "added_members st' =
      (if min_delay cfg \<le> max_delay cfg then accepted (trace st') else [])"
    using c10 by (simp add: f_added acc succeeds_def)
  have bound: "int (length (added_members st')) \<le> max 0 (members_to_add cfg)"
    using len c11 by (simp add: f_added)
  have idx: "current_account_index st' < length (accounts cfg)"
    using a c2 by (simp add: f_index)
  have k1: "fst ` set (daily_stats st') = set (accounts cfg)"
    using keys c5 by (simp add: f_stats)
  have k2: "distinct (map fst (daily_stats st'))"
    using dist c6 by (simp add: f_stats)
  have k3: "\<forall>v \<in> snd ` set (daily_stats st'). v \<le> max 0 (max_adds_per_day_per_account cfg)"
    using vals c7 by (simp add: f_stats)
  have k4: "sum_list (map snd (daily_stats st')) = int (length (added_members st'))"
    using total c8 by (simp add: f_stats f_added)
  have k5: "current_phone st' \<in> set (accounts cfg)"
    using c3 by (simp add: f_phone)
  have k6: "session_file st' = session_path (current_phone st')"
    using c4 by (simp add: f_phone f_file)
  have k7: "well_paused (trace st')"
    unfolding f_trace using c12 well_paused_step by (rule well_paused_append)
  have k8: "honest w (trace st')"
    unfolding f_trace out_def using c13 by (simp add: honest_append honest_step)
  have cons: "consistent cfg w ms st'"
    unfolding consistent_def
    using a idx k5 k6 k1 k2 k3 k4 req added bound k7 k8 by blast
  have flow: "fst (add_next cfg w st) = Continue \<and> quota_left cfg st'
       \<or> fst (add_next cfg w st) = Break"
    using n nq look by (simp add: f_flow quota_left_def f_stats f_phone)
  from cons flow f_members m f_phone f_file show ?thesis
    unfolding st'_def by simp
qed

subsection \<open>The invariant holds along a run\<close>

lemma loop_consistent:
  assumes "consistent cfg w ms st" and "quota_left cfg st"
  shows "consistent cfg w ms (snd (add_members_loop cfg w st)) \<and>
    fst (add_members_loop cfg w st) = None \<and>
    current_phone (snd (add_members_loop cfg w st)) = current_phone st \<and>
    session_file (snd (add_members_loop cfg w st)) = session_file st \<and>
    length (members (snd (add_members_loop cfg w st))) \<le> length (members st) \<and>
    (unfinished cfg st \<longrightarrow>
       length (members (snd (add_members_loop cfg w st))) < length (members st))"
  using assms
proof (induction cfg w st rule: add_members_loop.induct)
  case (1 cfg w st)
  show ?case
  proof (cases "unfinished cfg st")
    case False
    with "1.prems" show ?thesis
      by (simp add: add_members_loop.simps [of cfg w st])
  next
    case True
    then have ne: "members st \<noteq> []"
      by (simp add: unfinished_def)
    note step = add_next_consistent [OF "1.prems"(1) True "1.prems"(2)]
    from step have shorter: "length (members (snd (add_next cfg w st))) < length (members st)"
      using ne by (cases "members st") simp_all
    from step consider
      (continue) "fst (add_next cfg w st) = Continue" "quota_left cfg (snd (add_next cfg w st))"
      | (break) "fst (add_next cfg w st) = Break"
      by blast
    then show ?thesis
    proof cases
      case continue
      from step have c: "consistent cfg w ms (snd (add_next cfg w st))"
        by simp
      note ih = "1.IH" [OF True continue(1) c continue(2)]
      have "add_members_loop cfg w st = add_members_loop cfg w (snd (add_next cfg w st))"
        using True continue(1) by (simp add: add_members_loop.simps [of cfg w st])
      with ih step shorter show ?thesis
        by simp
    next
      case break
      have "add_members_loop cfg w st = (None, snd (add_next cfg w st))"
        using True break by (simp add: add_members_loop.simps [of cfg w st])
      with step shorter show ?thesis
        by simp
    qed
  qed
qed

lemma consistent_trace:
  assumes "consistent cfg w ms st"
    and "requested es = []" and "accepted es = []" and "well_paused es" and "honest w es"
  shows "consistent cfg w ms (st\<lparr>trace := trace st @ es\<rparr>)"
  using assms
  by (auto simp: consistent_def requested_append accepted_append honest_append
      well_paused_append)

lemma consistent_sleep:
  "consistent cfg w ms st \<Longrightarrow> consistent cfg w ms (asyncio_sleep n st)"
  unfolding asyncio_sleep_def by (rule consistent_trace) (simp_all add: honest_def)

lemma consistent_connect:
  assumes "consistent cfg w ms st"
  shows "consistent cfg w ms (st\<lparr>trace := trace st @ [Connect s], connections := k\<rparr>)"
proof -
  have "consistent cfg w ms (st\<lparr>trace := trace st @ [Connect s]\<rparr>)"
    using assms by (rule consistent_trace) (simp_all add: honest_def)
  then show ?thesis
    by (auto simp: consistent_def)
qed

lemma consistent_disconnect:
  "consistent cfg w ms st \<Longrightarrow> consistent cfg w ms (st\<lparr>trace := trace st @ [Disconnect]\<rparr>)"
  by (rule consistent_trace) (simp_all add: honest_def)

lemma members_sleep [simp]: "members (asyncio_sleep n st) = members st"
  by (simp add: asyncio_sleep_def)

lemma rotate_eq:
  "accounts cfg \<noteq> [] \<Longrightarrow>
   rotate_account cfg st =
     st\<lparr>current_account_index := (current_account_index st + 1) mod length (accounts cfg),
        current_phone := accounts cfg ! ((current_account_index st + 1) mod length (accounts cfg)),
        session_file :=
          session_path (accounts cfg ! ((current_account_index st + 1) mod length (accounts cfg)))\<rparr>"
  by (simp add: rotate_account_def switch_account_def reselect_def Let_def)

lemma consistent_rotate: "consistent cfg w ms st \<Longrightarrow> consistent cfg w ms (rotate_account cfg st)"
  by (auto simp: consistent_def rotate_eq)

lemma round_consistent:
  assumes c: "consistent cfg w ms st"
  shows "consistent cfg w ms (dispatch_round cfg w st) \<and>
    length (members (dispatch_round cfg w st)) \<le> length (members st)"
proof -
  define st1 where
    "st1 = st\<lparr>trace := trace st @ [Connect (session_file st)], connections := Suc (connections st)\<rparr>"
  have c1: "consistent cfg w ms st1"
    unfolding st1_def using c by (rule consistent_connect)
  have m1: "members st1 = members st"
    by (simp add: st1_def)
  from c have a: "accounts cfg \<noteq> []"
    by (simp add: consistent_def)
  define st2 where "st2 =
     (case session_state w (connections st) (session_file st) of
               ConnectFailed \<Rightarrow> asyncio_sleep 60 st1
             | NotAuthorized \<Rightarrow> rotate_account cfg st1
             | EntityFailed \<Rightarrow> asyncio_sleep 60 st1
             | Ready \<Rightarrow>
                 (case map_of (daily_stats st1) (current_phone st1) of
                    None \<Rightarrow> asyncio_sleep 60 st1
                  | Some n \<Rightarrow>
                      (if n \<ge> max_adds_per_day_per_account cfg then rotate_account cfg st1
                       else (case add_members_loop cfg w st1 of
                               (None, st3) \<Rightarrow> st3
                             | (Some e, st3) \<Rightarrow> asyncio_sleep 60 st3))))"
  have r: "dispatch_round cfg w st = st2\<lparr>trace := trace st2 @ [Disconnect]\<rparr>"
    by (simp only: dispatch_round_def Let_def st1_def st2_def)
  have "consistent cfg w ms st2 \<and> length (members st2) \<le> length (members st)"
  proof (cases "session_state w (connections st) (session_file st)")
    case ConnectFailed
    then show ?thesis using consistent_sleep [OF c1, of 60] m1 by (simp add: st2_def)
  next
    case NotAuthorized
    then show ?thesis using consistent_rotate [OF c1] m1 a by (simp add: st2_def) (simp add: rotate_eq)
  next
    case EntityFailed
    then show ?thesis using consistent_sleep [OF c1, of 60] m1 by (simp add: st2_def)
  next
    case Ready
    show ?thesis
    proof (cases "map_of (daily_stats st1) (current_phone st1)")
      case None
      with Ready show ?thesis using consistent_sleep [OF c1, of 60] m1
        by (simp add: st2_def)
    next
      case (Some n)
      show ?thesis
      proof (cases "n \<ge> max_adds_per_day_per_account cfg")
        case True
        with Ready Some show ?thesis
          using consistent_rotate [OF c1] m1 a by (simp add: st2_def) (simp add: rotate_eq)
      next
        case False
        with Some have q: "quota_left cfg st1"
          by (simp add: quota_left_def)
        note l = loop_consistent [OF c1 q]
        from l obtain st3 where e: "add_members_loop cfg w st1 = (None, st3)"
          by (cases "add_members_loop cfg w st1") auto
        with Ready Some False have "st2 = st3"
          by (simp add: st2_def)
        with l e m1 show ?thesis by simp
      qed
    qed
  qed
  then show ?thesis
    using consistent_disconnect [of cfg w ms st2] by (simp add: r)
qed

lemma rounds_consistent:
  "consistent cfg w ms st \<Longrightarrow> consistent cfg w ms (rounds k cfg w st)"
  by (induction k arbitrary: st) (simp_all add: round_consistent)

lemma rounds_members:
  "consistent cfg w ms st \<Longrightarrow> length (members (rounds k cfg w st)) \<le> length (members st)"
proof (induction k arbitrary: st)
  case 0
  then show ?case by simp
next
  case (Suc k)
  from round_consistent [OF Suc.prems] Suc.IH [of "dispatch_round cfg w st"]
  show ?case by auto
qed

lemma dispatch_loop_rounds:
  "dispatch_loop fuel cfg w st = Some st' \<Longrightarrow>
     st' = rounds fuel cfg w st \<and> \<not> unfinished cfg st'"
  by (induction fuel arbitrary: st) (auto split: if_splits)

lemma dispatch_loop_stops:
  "\<not> unfinished cfg (rounds k cfg w st) \<Longrightarrow>
     dispatch_loop (Suc k) cfg w st = Some (rounds k cfg w st)"
proof (induction k arbitrary: st)
  case 0
  then show ?case by simp
next
  case (Suc k)
  show ?case
  proof (cases "unfinished cfg st")
    case True
    with Suc.prems have "\<not> unfinished cfg (rounds k cfg w (dispatch_round cfg w st))"
      by simp
    then have "dispatch_loop (Suc k) cfg w (dispatch_round cfg w st)
        = Some (rounds k cfg w (dispatch_round cfg w st))"
      by (rule Suc.IH)
    moreover have "dispatch_loop (Suc (Suc k)) cfg w st
        = dispatch_loop (Suc k) cfg w (dispatch_round cfg w st)"
      using True by (simp only: dispatch_loop.simps(2) [of "Suc k" cfg w st] if_True)
    moreover have "rounds (Suc k) cfg w st = rounds k cfg w (dispatch_round cfg w st)"
      using True by simp
    ultimately show ?thesis by simp
  next
    case False
    then show ?thesis by simp
  qed
qed

lemma rounds_Suc_unfinished:
  "unfinished cfg st \<Longrightarrow> rounds (Suc k) cfg w st = rounds k cfg w (dispatch_round cfg w st)"
  by simp

lemma rounds_add: "rounds (j + k) cfg w st = rounds k cfg w (rounds j cfg w st)"
proof (induction j arbitrary: st)
  case 0
  then show ?case by simp
next
  case (Suc j)
  show ?case
  proof (cases "unfinished cfg st")
    case True
    then show ?thesis by (simp add: Suc.IH)
  next
    case False
    then have "rounds k cfg w st = st"
      by (cases k) simp_all
    with False show ?thesis by simp
  qed
qed

lemma stats_init_keys: "fst ` set (fold (\<lambda>a. setitem a v) as d) = fst ` set d \<union> set as"
  by (induction as arbitrary: d) (auto simp: keyset_setitem)

lemma stats_init_distinct:
  "distinct (map fst d) \<Longrightarrow> distinct (map fst (fold (\<lambda>a. setitem a v) as d))"
  by (induction as arbitrary: d) (simp_all add: distinct_setitem)

lemma stats_init_values:
  "snd ` set (fold (\<lambda>a. setitem a v) as d) \<subseteq> insert v (snd ` set d)"
proof (induction as arbitrary: d)
  case Nil
  then show ?case by auto
next
  case (Cons a as)
  from Cons.IH [of "setitem a v d"] values_setitem [of a v d]
  show ?case by auto
qed

lemma sum_zero: "snd ` set d \<subseteq> {0::int} \<Longrightarrow> sum_list (map snd d) = 0"
  by (induction d) auto

lemma run_start_consistent:
  assumes "accounts cfg = a # as"
  shows "consistent cfg w ms (run_start cfg ms a)"
proof -
  let ?d = "fold (\<lambda>account. setitem account 0) (accounts cfg) ([] :: (string \<times> int) list)"
  have k: "fst ` set ?d = set (accounts cfg)"
    by (simp add: stats_init_keys)
  have d: "distinct (map fst ?d)"
    by (rule stats_init_distinct) simp
  have v: "snd ` set ?d \<subseteq> {0}"
    using stats_init_values [of 0 "accounts cfg" "[]"] by simp
  then have s: "sum_list (map snd ?d) = 0"
    by (rule sum_zero)
  from v have b: "\<forall>n \<in> snd ` set ?d. n \<le> max 0 (max_adds_per_day_per_account cfg)"
    by auto
  show ?thesis
    unfolding consistent_def run_start_def adder_init_def
    using assms k d b s by (simp add: honest_def)
qed

subsection \<open>When the run stops\<close>

lemma consistent_counter:
  assumes "consistent cfg w ms st"
  shows "\<exists>n. map_of (daily_stats st) (current_phone st) = Some n"
proof -
  from assms have "current_phone st \<in> fst ` set (daily_stats st)"
    by (simp add: consistent_def)
  then have "map_of (daily_stats st) (current_phone st) \<noteq> None"
    by (simp add: map_of_eq_None_iff)
  then show ?thesis by blast
qed

lemma round_with_quota:
  assumes c: "consistent cfg w ms st"
    and r: "session_state w (connections st) (session_file st) = Ready"
    and q: "quota_left cfg st"
    and u: "unfinished cfg st"
  shows "length (members (dispatch_round cfg w st)) < length (members st)"
proof -
  define st1 where
    "st1 = st\<lparr>trace := trace st @ [Connect (session_file st)], connections := Suc (connections st)\<rparr>"
  have c1: "consistent cfg w ms st1"
    unfolding st1_def using c by (rule consistent_connect)
  have q1: "quota_left cfg st1"
    using q by (simp add: quota_left_def st1_def)
  have u1: "unfinished cfg st1"
    using u by (simp add: unfinished_def st1_def)
  from q1 obtain n where n: "map_of (daily_stats st1) (current_phone st1) = Some n"
    and nq: "\<not> n \<ge> max_adds_per_day_per_account cfg"
    by (auto simp: quota_left_def split: option.splits)
  note l = loop_consistent [OF c1 q1]
  from l obtain st3 where e: "add_members_loop cfg w st1 = (None, st3)"
    by (cases "add_members_loop cfg w st1") auto
  have "dispatch_round cfg w st = st3\<lparr>trace := trace st3 @ [Disconnect]\<rparr>"
    using r n nq e by (simp add: dispatch_round_def Let_def st1_def [symmetric])
  moreover from l e u1 have "length (members st3) < length (members st1)"
    by simp
  ultimately show ?thesis
    by (simp add: st1_def)
qed

lemma round_without_quota:
  assumes c: "consistent cfg w ms st"
    and r: "session_state w (connections st) (session_file st) = Ready"
    and q: "\<not> quota_left cfg st"
  shows "dispatch_round cfg w st =
     st\<lparr>trace := trace st @ [Connect (session_file st), Disconnect],
        connections := Suc (connections st),
        current_account_index := (current_account_index st + 1) mod length (accounts cfg),
        current_phone := accounts cfg ! ((current_account_index st + 1) mod length (accounts cfg)),
        session_file :=
          session_path (accounts cfg ! ((current_account_index st + 1) mod length (accounts cfg)))\<rparr>"
proof -
  from consistent_counter [OF c] obtain n
    where n: "map_of (daily_stats st) (current_phone st) = Some n"
    by blast
  with q have nq: "n \<ge> max_adds_per_day_per_account cfg"
    by (simp add: quota_left_def)
  from c have a: "accounts cfg \<noteq> []"
    by (simp add: consistent_def)
  show ?thesis
    using r n nq by (simp add: dispatch_round_def Let_def rotate_eq [OF a])
qed

lemma all_ge_sum:
  fixes q :: int
  shows "\<forall>v \<in> snd ` set d. q \<le> v \<Longrightarrow> q * int (length d) \<le> sum_list (map snd d)"
proof (induction d)
  case Nil
  then show ?case by simp
next
  case (Cons p d)
  then have "q \<le> snd p" and "q * int (length d) \<le> sum_list (map snd d)"
    by simp_all
  then show ?case
    by (simp add: algebra_simps)
qed

lemma some_account_has_quota:
  assumes c: "consistent cfg w ms st"
    and u: "unfinished cfg st"
    and cap: "members_to_add cfg
      \<le> max_adds_per_day_per_account cfg * int (card (set (accounts cfg)))"
  shows "\<exists>i n. i < length (accounts cfg) \<and>
    map_of (daily_stats st) (accounts cfg ! i) = Some n \<and> n < max_adds_per_day_per_account cfg"
proof -
  let ?q = "max_adds_per_day_per_account cfg"
  from c have k: "fst ` set (daily_stats st) = set (accounts cfg)"
    and d: "distinct (map fst (daily_stats st))"
    and s: "sum_list (map snd (daily_stats st)) = int (length (added_members st))"
    unfolding consistent_def by blast+
  have "card (set (map fst (daily_stats st))) = length (map fst (daily_stats st))"
    using d by (rule distinct_card)
  with k have len: "length (daily_stats st) = card (set (accounts cfg))"
    by simp
  have "\<not> (\<forall>v \<in> snd ` set (daily_stats st). ?q \<le> v)"
  proof
    assume "\<forall>v \<in> snd ` set (daily_stats st). ?q \<le> v"
    then have "?q * int (length (daily_stats st)) \<le> sum_list (map snd (daily_stats st))"
      by (rule all_ge_sum)
    with s len cap u show False
      by (simp add: unfinished_def)
  qed
  then obtain p n where pn: "(p, n) \<in> set (daily_stats st)" and nq: "n < ?q"
    by force
  from pn k have "p \<in> set (accounts cfg)"
    by force
  then obtain i where i: "i < length (accounts cfg)" and ai: "accounts cfg ! i = p"
    by (auto simp: in_set_conv_nth)
  from d pn have "map_of (daily_stats st) p = Some n"
    by simp
  with i ai nq show ?thesis
    by blast
qed

lemma rotation_reaches:
  assumes r: "\<And>k s. session_state w k s = Ready"
  shows "consistent cfg w ms st \<Longrightarrow> unfinished cfg st \<Longrightarrow> synced cfg st \<Longrightarrow>
    map_of (daily_stats st)
      (accounts cfg ! ((current_account_index st + j) mod length (accounts cfg))) = Some n \<Longrightarrow>
    n < max_adds_per_day_per_account cfg \<Longrightarrow>
    \<exists>k. length (members (rounds k cfg w st)) < length (members st)"
proof (induction j arbitrary: st)
  case 0
  from "0.prems"(1) have "current_account_index st < length (accounts cfg)"
    by (simp add: consistent_def)
  with "0.prems"(3,4,5) have "quota_left cfg st"
    by (simp add: quota_left_def synced_def)
  from round_with_quota [OF "0.prems"(1) r this "0.prems"(2)] "0.prems"(2)
  have "length (members (rounds (Suc 0) cfg w st)) < length (members st)"
    by simp
  then show ?case ..
next
  case (Suc j)
  show ?case
  proof (cases "quota_left cfg st")
    case True
    from round_with_quota [OF Suc.prems(1) r this Suc.prems(2)] Suc.prems(2)
    have "length (members (rounds (Suc 0) cfg w st)) < length (members st)"
      by simp
    then show ?thesis ..
  next
    case False
    let ?st' = "dispatch_round cfg w st"
    note eq = round_without_quota [OF Suc.prems(1) r False]
    have c': "consistent cfg w ms ?st'"
      using round_consistent [OF Suc.prems(1)] by simp
    have u': "unfinished cfg ?st'"
      using Suc.prems(2) by (simp add: eq unfinished_def)
    have s': "synced cfg ?st'"
      by (simp add: eq synced_def)
    have i': "(current_account_index ?st' + j) mod length (accounts cfg)
        = (current_account_index st + Suc j) mod length (accounts cfg)"
      by (simp add: eq mod_add_left_eq)
    have n': "map_of (daily_stats ?st')
        (accounts cfg ! ((current_account_index ?st' + j) mod length (accounts cfg))) = Some n"
      using Suc.prems(4) unfolding i' by (simp add: eq)
    from Suc.IH [OF c' u' s' n' Suc.prems(5)]
    obtain k where "length (members (rounds k cfg w ?st')) < length (members ?st')"
      by blast
    then have "length (members (rounds (Suc k) cfg w st)) < length (members st)"
      using Suc.prems(2) by (simp add: eq)
    then show ?thesis ..
  qed
qed

lemma progress:
  assumes r: "\<And>k s. session_state w k s = Ready"
    and c: "consistent cfg w ms st"
    and u: "unfinished cfg st"
    and cap: "members_to_add cfg
      \<le> max_adds_per_day_per_account cfg * int (card (set (accounts cfg)))"
  shows "\<exists>k. length (members (rounds k cfg w st)) < length (members st)"
proof (cases "quota_left cfg st")
  case True
  from round_with_quota [OF c r this u] u
  have "length (members (rounds (Suc 0) cfg w st)) < length (members st)"
    by simp
  then show ?thesis ..
next
  case False
  let ?st' = "dispatch_round cfg w st"
  let ?R = "length (accounts cfg)"
  note eq = round_without_quota [OF c r False]
  have c': "consistent cfg w ms ?st'"
    using round_consistent [OF c] by simp
  have u': "unfinished cfg ?st'"
    using u by (simp add: eq unfinished_def)
  have s': "synced cfg ?st'"
    by (simp add: eq synced_def)
  from some_account_has_quota [OF c u cap] obtain i n
    where i: "i < ?R" and n: "map_of (daily_stats st) (accounts cfg ! i) = Some n"
      and nq: "n < max_adds_per_day_per_account cfg"
    by blast
  from c' have lt: "current_account_index ?st' < ?R"
    by (simp add: consistent_def)
  define j where "j = i + ?R - current_account_index ?st'"
  have "current_account_index ?st' + j = i + ?R"
    using lt by (simp add: j_def)
  then have "(current_account_index ?st' + j) mod ?R = i"
    using i by simp
  then have n': "map_of (daily_stats ?st')
      (accounts cfg ! ((current_account_index ?st' + j) mod ?R)) = Some n"
    using n by (simp add: eq)
  from rotation_reaches [OF r c' u' s' n' nq]
  obtain k where "length (members (rounds k cfg w ?st')) < length (members ?st')"
    by blast
  then have "length (members (rounds (Suc k) cfg w st)) < length (members st)"
    using u by (simp add: eq)
  then show ?thesis ..
qed

lemma rounds_finish:
  assumes r: "\<And>k s. session_state w k s = Ready"
    and cap: "members_to_add cfg
      \<le> max_adds_per_day_per_account cfg * int (card (set (accounts cfg)))"
  shows "consistent cfg w ms st \<Longrightarrow> \<exists>k. \<not> unfinished cfg (rounds k cfg w st)"
proof (induction "length (members st)" arbitrary: st rule: less_induct)
  case less
  show ?case
  proof (cases "unfinished cfg st")
    case False
    then have "\<not> unfinished cfg (rounds 0 cfg w st)"
      by simp
    then show ?thesis ..
  next
    case True
    from progress [OF r less.prems True cap]
    obtain j where j: "length (members (rounds j cfg w st)) < length (members st)"
      by blast
    from less.hyps [OF j rounds_consistent [OF less.prems]]
    obtain k where "\<not> unfinished cfg (rounds k cfg w (rounds j cfg w st))"
      by blast
    then have "\<not> unfinished cfg (rounds (j + k) cfg w st)"
      by (simp add: rounds_add)
    then show ?thesis ..
  qed
qed

lemma consistent_save:
  "consistent cfg w ms st \<Longrightarrow> consistent cfg w ms (save_progress added st)"
  by (auto simp: consistent_def save_progress_def)

lemma run_completed:
  assumes "run fuel cfg w file = Completed st"
  shows "\<exists>a as st0. accounts cfg = a # as \<and> load_members file \<noteq> [] \<and>
    dispatch_loop fuel cfg w (run_start cfg (load_members file) a) = Some st0 \<and>
    st = save_progress (added_members st0) st0"
  using assms
  by (auto simp: run_def Let_def split: if_splits list.splits option.splits)

lemma run_consistent:
  assumes "run fuel cfg w file = Completed st"
  shows "consistent cfg w (load_members file) st \<and> \<not> unfinished cfg st \<and>
    progress_file st =
      Some \<lparr>saved_added_members = added_members st, saved_daily_stats = daily_stats st\<rparr>"
proof -
  from run_completed [OF assms] obtain a as st0
    where a: "accounts cfg = a # as"
      and l: "dispatch_loop fuel cfg w (run_start cfg (load_members file) a) = Some st0"
      and s: "st = save_progress (added_members st0) st0"
    by blast
  from dispatch_loop_rounds [OF l]
  have r: "st0 = rounds fuel cfg w (run_start cfg (load_members file) a)"
    and u: "\<not> unfinished cfg st0"
    by blast+
  have "consistent cfg w (load_members file) st0"
    unfolding r by (rule rounds_consistent) (rule run_start_consistent [OF a])
  then have "consistent cfg w (load_members file) st"
    unfolding s by (rule consistent_save)
  moreover have "\<not> unfinished cfg st"
    using u by (simp add: s save_progress_def unfinished_def)
  moreover have "progress_file st =
      Some \<lparr>saved_added_members = added_members st, saved_daily_stats = daily_stats st\<rparr>"
    by (simp add: s save_progress_def)
  ultimately show ?thesis by blast
qed

lemma run_terminates:
  assumes r: "\<And>k s. session_state w k s = Ready"
    and cap: "members_to_add cfg
      \<le> max_adds_per_day_per_account cfg * int (card (set (accounts cfg)))"
    and a: "accounts cfg \<noteq> []"
    and m: "load_members file \<noteq> []"
  shows "\<exists>fuel st. run fuel cfg w file = Completed st"
proof -
  from a obtain a0 as where a0: "accounts cfg = a0 # as"
    by (cases "accounts cfg") simp_all
  let ?st0 = "run_start cfg (load_members file) a0"
  have "consistent cfg w (load_members file) ?st0"
    by (rule run_start_consistent [OF a0])
  from rounds_finish [OF r cap this] obtain k
    where "\<not> unfinished cfg (rounds k cfg w ?st0)"
    by blast
  then have "dispatch_loop (Suc k) cfg w ?st0 = Some (rounds k cfg w ?st0)"
    by (rule dispatch_loop_stops)
  then have "run (Suc k) cfg w file =
      Completed (save_progress (added_members (rounds k cfg w ?st0)) (rounds k cfg w ?st0))"
    using a0 m by (simp add: run_def Let_def del: dispatch_loop.simps)
  then show ?thesis by blast
qed

subsection \<open>When the run never stops\<close>

lemma round_exhausted:
  assumes c: "consistent cfg w ms st" and e: "exhausted cfg st"
  shows "exhausted cfg (dispatch_round cfg w st)"
proof -
  from c have a: "accounts cfg \<noteq> []"
    by (simp add: consistent_def)
  from consistent_counter [OF c] obtain n
    where n: "map_of (daily_stats st) (current_phone st) = Some n"
    by blast
  then have "(current_phone st, n) \<in> set (daily_stats st)"
    by (rule map_of_SomeD)
  with e have nq: "max_adds_per_day_per_account cfg \<le> n"
    by (force simp: exhausted_def)
  have "daily_stats (dispatch_round cfg w st) = daily_stats st \<and>
    members (dispatch_round cfg w st) = members st \<and>
    added_members (dispatch_round cfg w st) = added_members st"
    using n nq
    by (cases "session_state w (connections st) (session_file st)")
      (simp_all add: dispatch_round_def Let_def rotate_eq [OF a] asyncio_sleep_def)
  with e show ?thesis
    by (simp add: exhausted_def unfinished_def)
qed

lemma exhausted_never_stops:
  "consistent cfg w ms st \<Longrightarrow> exhausted cfg st \<Longrightarrow> dispatch_loop fuel cfg w st = None"
proof (induction fuel arbitrary: st)
  case 0
  then show ?case by simp
next
  case (Suc fuel)
  from Suc.prems have u: "unfinished cfg st"
    by (simp add: exhausted_def)
  have "dispatch_loop fuel cfg w (dispatch_round cfg w st) = None"
    using round_consistent [OF Suc.prems(1)] round_exhausted [OF Suc.prems]
    by (intro Suc.IH) simp_all
  with u show ?case by simp
qed

lemma dispatch_loop_more_fuel:
  "dispatch_loop fuel cfg w st = Some st' \<Longrightarrow> dispatch_loop (fuel + k) cfg w st = Some st'"
  by (induction fuel arbitrary: st) (auto split: if_splits)

lemma dispatch_loop_not_yet:
  "unfinished cfg (rounds k cfg w st) \<Longrightarrow>
     dispatch_loop fuel cfg w st =
       (if fuel \<le> k then None else dispatch_loop (fuel - k) cfg w (rounds k cfg w st))"
proof (induction k arbitrary: st fuel)
  case 0
  then show ?case by (cases fuel) simp_all
next
  case (Suc k)
  have u: "unfinished cfg st"
  proof (rule ccontr)
    assume "\<not> unfinished cfg st"
    with Suc.prems show False by simp
  qed
  with Suc.prems have r: "unfinished cfg (rounds k cfg w (dispatch_round cfg w st))"
    by simp
  show ?case
  proof (cases fuel)
    case 0
    then show ?thesis by simp
  next
    case (Suc f)
    with u Suc.IH [OF r, of f] show ?thesis
      by simp
  qed
qed

lemma exhausted_run_never_completes:
  assumes a: "accounts cfg = a0 # as" and m: "load_members file \<noteq> []"
    and e: "exhausted cfg (rounds k cfg w (run_start cfg (load_members file) a0))"
  shows "run fuel cfg w file = StillRunning"
proof -
  let ?st0 = "run_start cfg (load_members file) a0"
  have c: "consistent cfg w (load_members file) (rounds k cfg w ?st0)"
    by (rule rounds_consistent) (rule run_start_consistent [OF a])
  from e have u: "unfinished cfg (rounds k cfg w ?st0)"
    by (simp add: exhausted_def)
  have "dispatch_loop fuel cfg w ?st0 = None"
    using dispatch_loop_not_yet [OF u, of fuel] exhausted_never_stops [OF c e]
    by simp
  then show ?thesis
    using a m by (simp add: run_def Let_def)
qed

lemma run_more_fuel:
  assumes "run fuel cfg w file = Completed st"
  shows "run (fuel + k) cfg w file = Completed st"
proof -
  from run_completed [OF assms] obtain a as st0
    where a: "accounts cfg = a # as" and m: "load_members file \<noteq> []"
      and l: "dispatch_loop fuel cfg w (run_start cfg (load_members file) a) = Some st0"
      and s: "st = save_progress (added_members st0) st0"
    by blast
  from dispatch_loop_more_fuel [OF l, of k] a m s show ?thesis
    by (simp add: run_def Let_def)
qed

lemma run_stops_at_boundary:
  assumes a: "accounts cfg = a0 # as" and m: "load_members file \<noteq> []"
    and u: "\<not> unfinished cfg (rounds k cfg w (run_start cfg (load_members file) a0))"
  shows "\<exists>st. run (Suc k) cfg w file = Completed st"
  using dispatch_loop_stops [OF u] a m
  by (simp add: run_def Let_def del: dispatch_loop.simps)

subsection \<open>The claims about the Dispatcher\<close>

lemma accepted_subset: "set (accepted tr) \<subseteq> set (requested tr)"
  by (induction tr rule: accepted.induct) auto

lemma requested_member: "Invite c u out \<in> set tr \<Longrightarrow> u \<in> set (requested tr)"
  by (induction tr rule: requested.induct) auto

lemma refused_not_accepted:
  "distinct (requested tr) \<Longrightarrow> Invite c u out \<in> set tr \<Longrightarrow> out \<noteq> Invited \<Longrightarrow>
     u \<notin> set (accepted tr)"
proof (induction tr)
  case Nil
  then show ?case by simp
next
  case (Cons e es)
  then show ?case
    using accepted_subset [of es] requested_member [of c u out es]
    by (cases e) (auto simp: accepted_Invite split: if_splits)
qed

lemma all_invited_accepted:
  "honest w tr \<Longrightarrow> (\<And>k c u. invite_result w k c u = Invited) \<Longrightarrow> accepted tr = requested tr"
proof (induction tr)
  case Nil
  then show ?case by simp
next
  case (Cons e es)
  from Cons.prems(1) have h: "honest w es"
    by (auto simp: honest_def)
  have ih: "accepted es = requested es"
    by (rule Cons.IH [OF h Cons.prems(2)])
  show ?case
  proof (cases e)
    case (Invite c u out)
    with Cons.prems have "out = Invited"
      by (auto simp: honest_def)
    with Invite ih show ?thesis
      by simp
  qed (simp_all add: ih)
qed

lemma randint_range:
  "a \<le> b \<Longrightarrow> \<exists>d. randint r a b = Inr d \<and> a \<le> d \<and> d \<le> b"
proof -
  assume ab: "a \<le> b"
  then have pos: "0 < b - a + 1" by simp
  have "0 \<le> int r mod (b - a + 1)"
    using pos by simp
  moreover have "int r mod (b - a + 1) < b - a + 1"
    using pos by (rule pos_mod_bound)
  ultimately show ?thesis
    using ab by (simp add: randint_def)
qed

lemma randint_onto:
  assumes "a \<le> d" and "d \<le> b"
  shows "randint (nat (d - a)) a b = Inr d"
  using assms by (simp add: randint_def)

text \<open>
  Claim C8. When the invite request returns and \<open>min_delay \<le> max_delay\<close>, the attempt
  returns True after exactly one sleep, recorded right after the request; its duration is
  an integer of the inclusive interval, equal to the bound when both bounds agree, and
  every integer of the interval is the duration for some draw of the generator. (That all
  draws are equally likely is a property of the generator, outside this model.)
\<close>

theorem delay_after_success:
  assumes i: "invite_result w (requests st) client u = Invited"
    and d: "min_delay cfg \<le> max_delay cfg"
  shows "\<exists>delay.
    add_member cfg w client u st =
      (Inr True, st\<lparr>trace := trace st @ [Invite client u Invited, Slept delay],
                    requests := Suc (requests st)\<rparr>) \<and>
    min_delay cfg \<le> delay \<and> delay \<le> max_delay cfg \<and>
    (min_delay cfg = max_delay cfg \<longrightarrow> delay = max_delay cfg) \<and>
    (\<forall>x. min_delay cfg \<le> x \<and> x \<le> max_delay cfg \<longrightarrow>
       (\<exists>r. randint r (min_delay cfg) (max_delay cfg) = Inr x))"
proof -
  from randint_range [OF d, of "random_draw w (requests st)"] obtain delay
    where r: "randint (random_draw w (requests st)) (min_delay cfg) (max_delay cfg) = Inr delay"
      and lo: "min_delay cfg \<le> delay" and hi: "delay \<le> max_delay cfg"
    by blast
  have "add_member cfg w client u st =
      (Inr True, st\<lparr>trace := trace st @ [Invite client u Invited, Slept delay],
                    requests := Suc (requests st)\<rparr>)"
    using i r by (simp add: add_member_def Let_def asyncio_sleep_def)
  moreover have "\<forall>x. min_delay cfg \<le> x \<and> x \<le> max_delay cfg \<longrightarrow>
       (\<exists>r. randint r (min_delay cfg) (max_delay cfg) = Inr x)"
    using randint_onto by blast
  ultimately show ?thesis
    using lo hi by auto
qed

lemma add_next_frame:
  "current_phone (snd (add_next cfg w st)) = current_phone st \<and>
   session_file (snd (add_next cfg w st)) = session_file st \<and>
   (account \<noteq> current_phone st \<longrightarrow>
      map_of (daily_stats (snd (add_next cfg w st))) account = map_of (daily_stats st) account)"
  by (simp add: add_next_def add_member_def count_success_def save_progress_def
      asyncio_sleep_def switch_account_def randint_def Let_def map_of_setitem
      split: list.splits invite_outcome.splits sum.splits option.splits prod.splits)

lemma loop_frame:
  "current_phone (snd (add_members_loop cfg w st)) = current_phone st \<and>
   session_file (snd (add_members_loop cfg w st)) = session_file st \<and>
   (account \<noteq> current_phone st \<longrightarrow>
      map_of (daily_stats (snd (add_members_loop cfg w st))) account
        = map_of (daily_stats st) account)"
proof (induction cfg w st rule: add_members_loop.induct)
  case (1 cfg w st)
  show ?case
  proof (cases "unfinished cfg st")
    case False
    then show ?thesis
      by (simp add: add_members_loop.simps [of cfg w st])
  next
    case True
    note f = add_next_frame [of cfg w st account]
    show ?thesis
    proof (cases "fst (add_next cfg w st)")
      case Continue
      have "add_members_loop cfg w st = add_members_loop cfg w (snd (add_next cfg w st))"
        using True Continue by (simp add: add_members_loop.simps [of cfg w st])
      with "1.IH" [OF True Continue] f show ?thesis
        by simp
    next
      case Break
      with True f show ?thesis
        by (simp add: add_members_loop.simps [of cfg w st])
    next
      case (Raise e)
      with True f show ?thesis
        by (simp add: add_members_loop.simps [of cfg w st])
    qed
  qed
qed

text \<open>
  Claim C10. A flood-of-requests signal changes the rotation index only (and records the
  request and a sleep of 60): the counters, the current phone and the session file stay.
  The next attempt of the inner loop is made on the same session file, and its success
  is counted for the phone that was current before the rotation. The inner loop as a whole
  never changes the current phone or the session file, nor the counter of any other phone.
\<close>

theorem peer_flood_keeps_session:
  "(accounts cfg \<noteq> [] \<and> invite_result w (requests st) client u = PeerFloodError \<longrightarrow>
      add_member cfg w client u st =
        (Inr False,
         st\<lparr>trace := trace st @ [Invite client u PeerFloodError, Slept 60],
            requests := Suc (requests st),
            current_account_index :=
              (current_account_index st + 1) mod length (accounts cfg)\<rparr>)) \<and>
   (accounts cfg \<noteq> [] \<and> members st = u1 # u2 # rest \<and>
    invite_result w (requests st) (session_file st) u1 = PeerFloodError \<and>
    invite_result w (Suc (requests st)) (session_file st) u2 = Invited \<and>
    min_delay cfg \<le> max_delay cfg \<and>
    map_of (daily_stats st) (current_phone st) = Some n \<longrightarrow>
      (\<exists>delay.
         trace (snd (add_next cfg w (snd (add_next cfg w st)))) =
           trace st @ [Invite (session_file st) u1 PeerFloodError, Slept 60,
                       Invite (session_file st) u2 Invited, Slept delay]) \<and>
      daily_stats (snd (add_next cfg w (snd (add_next cfg w st)))) =
        setitem (current_phone st) (n + 1) (daily_stats st) \<and>
      current_account_index (snd (add_next cfg w (snd (add_next cfg w st)))) =
        (current_account_index st + 1) mod length (accounts cfg)) \<and>
   current_phone (snd (add_members_loop cfg w st)) = current_phone st \<and>
   session_file (snd (add_members_loop cfg w st)) = session_file st \<and>
   (\<forall>account. account \<noteq> current_phone st \<longrightarrow>
      map_of (daily_stats (snd (add_members_loop cfg w st))) account
        = map_of (daily_stats st) account)"
proof -
  have a: "accounts cfg \<noteq> [] \<and> invite_result w (requests st) client u = PeerFloodError \<longrightarrow>
      add_member cfg w client u st =
        (Inr False,
         st\<lparr>trace := trace st @ [Invite client u PeerFloodError, Slept 60],
            requests := Suc (requests st),
            current_account_index :=
              (current_account_index st + 1) mod length (accounts cfg)\<rparr>)"
    by (simp add: add_member_eq succeeds_def pause_def)
  have b: "(\<exists>delay.
         trace (snd (add_next cfg w (snd (add_next cfg w st)))) =
           trace st @ [Invite (session_file st) u1 PeerFloodError, Slept 60,
                       Invite (session_file st) u2 Invited, Slept delay]) \<and>
      daily_stats (snd (add_next cfg w (snd (add_next cfg w st)))) =
        setitem (current_phone st) (n + 1) (daily_stats st) \<and>
      current_account_index (snd (add_next cfg w (snd (add_next cfg w st)))) =
        (current_account_index st + 1) mod length (accounts cfg)"
    if ne: "accounts cfg \<noteq> []" and m: "members st = u1 # u2 # rest"
      and o1: "invite_result w (requests st) (session_file st) u1 = PeerFloodError"
      and o2: "invite_result w (Suc (requests st)) (session_file st) u2 = Invited"
      and d: "min_delay cfg \<le> max_delay cfg"
      and n: "map_of (daily_stats st) (current_phone st) = Some n"
  proof -
    define st1 where "st1 = snd (add_next cfg w st)"
    have s1: "st1 = st\<lparr>members := u2 # rest,
        trace := trace st @ [Invite (session_file st) u1 PeerFloodError, Slept 60],
        requests := Suc (requests st),
        current_account_index := (current_account_index st + 1) mod length (accounts cfg)\<rparr>"
      unfolding st1_def
      by (simp add: add_next_eq [OF m ne n] o1 Let_def succeeds_def pause_def)
    have m1: "members st1 = u2 # rest"
      and n1: "map_of (daily_stats st1) (current_phone st1) = Some n"
      and o: "invite_result w (requests st1) (session_file st1) u2 = Invited"
      using n o2 by (simp_all add: s1)
    show ?thesis
      unfolding st1_def [symmetric]
      using d by (simp add: add_next_eq [OF m1 ne n1] o Let_def succeeds_def pause_def)
        (simp add: s1)
  qed
  from a b loop_frame [of cfg w st] show ?thesis
    by blast
qed

text \<open>
  Claim C5. On a rate-limit signal the attempt records a sleep of the duration the server
  asked for, right after the request, and returns False. In a completed run the requests
  follow the queue, one per popped candidate; a candidate (of a duplicate-free candidate
  file) whose request was rate-limited is requested exactly once, the sleep directly
  follows its request, and it is neither in the final added list nor in the final progress
  record.
\<close>

theorem rate_limited_candidate_is_dropped:
  "(invite_result w (requests st) client u = FloodWaitError s \<longrightarrow>
      add_member cfg w client u st =
        (Inr False,
         st\<lparr>trace := trace st @ [Invite client u (FloodWaitError s), Slept s],
            requests := Suc (requests st)\<rparr>)) \<and>
   (run fuel cfg w file = Completed st' \<longrightarrow>
      requested (trace st') @ members st' = load_members file) \<and>
   (run fuel cfg w file = Completed st' \<and> distinct (load_members file) \<and>
    Invite c u' (FloodWaitError s') \<in> set (trace st') \<longrightarrow>
      u' \<notin> set (added_members st') \<and>
      count_list (requested (trace st')) u' = 1 \<and>
      (\<exists>pre post. trace st' = pre @ Invite c u' (FloodWaitError s') # Slept s' # post) \<and>
      (\<exists>p. progress_file st' = Some p \<and> u' \<notin> set (saved_added_members p)))"
proof -
  have a: "invite_result w (requests st) client u = FloodWaitError s \<longrightarrow>
      add_member cfg w client u st =
        (Inr False,
         st\<lparr>trace := trace st @ [Invite client u (FloodWaitError s), Slept s],
            requests := Suc (requests st)\<rparr>)"
    by (simp add: add_member_def Let_def asyncio_sleep_def)
  have b: "requested (trace st') @ members st' = load_members file"
    if "run fuel cfg w file = Completed st'"
    using run_consistent [OF that] by (simp add: consistent_def)
  have c: "u' \<notin> set (added_members st') \<and>
      count_list (requested (trace st')) u' = 1 \<and>
      (\<exists>pre post. trace st' = pre @ Invite c u' (FloodWaitError s') # Slept s' # post) \<and>
      (\<exists>p. progress_file st' = Some p \<and> u' \<notin> set (saved_added_members p))"
    if r: "run fuel cfg w file = Completed st'" and d: "distinct (load_members file)"
      and i: "Invite c u' (FloodWaitError s') \<in> set (trace st')"
  proof -
    from run_consistent [OF r]
    have req: "requested (trace st') @ members st' = load_members file"
      and add: "added_members st' =
        (if min_delay cfg \<le> max_delay cfg then accepted (trace st') else [])"
      and wp: "well_paused (trace st')"
      and pf: "progress_file st' =
        Some \<lparr>saved_added_members = added_members st', saved_daily_stats = daily_stats st'\<rparr>"
      unfolding consistent_def by blast+
    from req d have dr: "distinct (requested (trace st'))"
      by (metis distinct_append)
    from refused_not_accepted [OF dr i] have "u' \<notin> set (accepted (trace st'))"
      by simp
    with add have n: "u' \<notin> set (added_members st')"
      by (simp split: if_splits)
    from requested_member [OF i] count_list_distinct [OF dr, of u']
    have k: "count_list (requested (trace st')) u' = 1"
      by simp
    from i obtain pre post where sp: "trace st' = pre @ Invite c u' (FloodWaitError s') # post"
      by (auto dest: split_list)
    with wp well_paused_follow [of pre c u' s' post] obtain post'
      where "post = Slept s' # post'"
      by auto
    with sp have "\<exists>pre post. trace st' = pre @ Invite c u' (FloodWaitError s') # Slept s' # post"
      by blast
    with n k pf show ?thesis
      by simp
  qed
  from a b c show ?thesis
    by blast
qed

text \<open>
  Claim C4. A rotation sets the index to the successor modulo the number of accounts,
  which is 0 after the last account. After any number of rounds of a run, and at its
  completion, no daily counter exceeds the quota (for a quota that is not negative; a
  negative quota leaves every counter at 0).
\<close>

theorem quota_and_round_robin:
  "(accounts cfg \<noteq> [] \<longrightarrow>
      switch_account cfg st =
        Inr (st\<lparr>current_account_index :=
                   (current_account_index st + 1) mod length (accounts cfg)\<rparr>) \<and>
      (current_account_index st + 1) mod length (accounts cfg) < length (accounts cfg) \<and>
      (Suc (current_account_index st) = length (accounts cfg) \<longrightarrow>
         (current_account_index st + 1) mod length (accounts cfg) = 0)) \<and>
   (accounts cfg = a # as \<and>
    (account, n) \<in> set (daily_stats (rounds k cfg w (run_start cfg ms a))) \<longrightarrow>
      n \<le> max 0 (max_adds_per_day_per_account cfg)) \<and>
   (run fuel cfg w file = Completed st' \<and> (account, n) \<in> set (daily_stats st') \<longrightarrow>
      n \<le> max 0 (max_adds_per_day_per_account cfg))"
proof -
  have a: "accounts cfg \<noteq> [] \<longrightarrow>
      switch_account cfg st =
        Inr (st\<lparr>current_account_index :=
                   (current_account_index st + 1) mod length (accounts cfg)\<rparr>) \<and>
      (current_account_index st + 1) mod length (accounts cfg) < length (accounts cfg) \<and>
      (Suc (current_account_index st) = length (accounts cfg) \<longrightarrow>
         (current_account_index st + 1) mod length (accounts cfg) = 0)"
    by (simp add: switch_account_def)
  have b: "n \<le> max 0 (max_adds_per_day_per_account cfg)"
    if "accounts cfg = a # as"
      and i: "(account, n) \<in> set (daily_stats (rounds k cfg w (run_start cfg ms a)))"
  proof -
    have "consistent cfg w ms (rounds k cfg w (run_start cfg ms a))"
      by (rule rounds_consistent) (rule run_start_consistent [OF that(1)])
    with i show ?thesis
      by (force simp: consistent_def)
  qed
  have c: "n \<le> max 0 (max_adds_per_day_per_account cfg)"
    if r: "run fuel cfg w file = Completed st'" and i: "(account, n) \<in> set (daily_stats st')"
    using run_consistent [OF r] i by (force simp: consistent_def)
  from a b c show ?thesis
    by blast
qed

text \<open>
  Claim C2, amended. A run stops only where the target count is reached or the candidate
  list is exhausted; it has then written a final progress record holding the added list
  and the counters, and more fuel does not change its result. It stops as soon as a round
  ends in such a state. It does stop when every connection finds an authorized, usable
  session and the target is at most the quota times the number of distinct accounts. It
  never stops once a round ends with the loop condition still true and every counter at
  the quota. A run with no candidate loaded, or with no account configured, ends at once
  and writes no progress record.
\<close>

theorem run_stops_when_quota_suffices:
  "(run fuel cfg w file = Completed st \<longrightarrow>
      (members_to_add cfg \<le> int (length (added_members st)) \<or> members st = []) \<and>
      progress_file st =
        Some \<lparr>saved_added_members = added_members st, saved_daily_stats = daily_stats st\<rparr> \<and>
      run (fuel + extra) cfg w file = Completed st) \<and>
   (accounts cfg = a # as \<and> load_members file \<noteq> [] \<and>
    \<not> unfinished cfg (rounds k cfg w (run_start cfg (load_members file) a)) \<longrightarrow>
      (\<exists>st'. run (Suc k) cfg w file = Completed st')) \<and>
   ((\<forall>k s. session_state w k s = Ready) \<and>
    members_to_add cfg \<le> max_adds_per_day_per_account cfg * int (card (set (accounts cfg)))
    \<longrightarrow> (\<exists>fuel'. run fuel' cfg w file \<noteq> StillRunning)) \<and>
   (accounts cfg = a # as \<and> load_members file \<noteq> [] \<and>
    exhausted cfg (rounds k cfg w (run_start cfg (load_members file) a)) \<longrightarrow>
      run fuel cfg w file = StillRunning) \<and>
   (load_members file = [] \<longrightarrow> run fuel cfg w file = NoMembersFound) \<and>
   (load_members file \<noteq> [] \<and> accounts cfg = [] \<longrightarrow>
      run fuel cfg w file = Raised IndexError)"
proof -
  have c: "load_members file = [] \<longrightarrow> run fuel cfg w file = NoMembersFound"
    by (simp add: run_def Let_def)
  have d: "load_members file \<noteq> [] \<and> accounts cfg = [] \<longrightarrow>
      run fuel cfg w file = Raised IndexError"
    by (simp add: run_def Let_def)
  have a: "(members_to_add cfg \<le> int (length (added_members st)) \<or> members st = []) \<and>
      progress_file st =
        Some \<lparr>saved_added_members = added_members st, saved_daily_stats = daily_stats st\<rparr> \<and>
      run (fuel + extra) cfg w file = Completed st"
    if "run fuel cfg w file = Completed st"
    using run_consistent [OF that] run_more_fuel [OF that] by (auto simp: unfinished_def)
  have b: "\<exists>fuel'. run fuel' cfg w file \<noteq> StillRunning"
    if r: "\<forall>k s. session_state w k s = Ready"
      and cap: "members_to_add cfg
        \<le> max_adds_per_day_per_account cfg * int (card (set (accounts cfg)))"
  proof (cases "accounts cfg \<noteq> [] \<and> load_members file \<noteq> []")
    case True
    with run_terminates [of w cfg "file"] r cap
    obtain fuel' st' where "run fuel' cfg w file = Completed st'"
      by blast
    then have "run fuel' cfg w file \<noteq> StillRunning"
      by simp
    then show ?thesis ..
  next
    case False
    then have "run 0 cfg w file \<noteq> StillRunning"
      by (auto simp: run_def Let_def split: list.splits)
    then show ?thesis ..
  qed
  from a b c d run_stops_at_boundary [of cfg a as "file" k w]
    exhausted_run_never_completes [of cfg a as "file" k w fuel]
  show ?thesis
    by blast
qed

text \<open>
  Claim C3, amended. With a target \<open>N \<ge> 0\<close>, a non-empty candidate list of at least
  \<open>N\<close> entries, sessions that are always usable, every invite request returning,
  \<open>min_delay \<le> max_delay\<close>, and \<open>N\<close> at most the quota times the number of distinct
  accounts, the run completes, and every completed run has added exactly the first \<open>N\<close>
  candidates and has written a progress record with \<open>N\<close> added members.
\<close>

theorem full_success_adds_exactly_target:
  assumes ready: "\<forall>k s. session_state w k s = Ready"
    and invited: "\<forall>k s u. invite_result w k s u = Invited"
    and delays: "min_delay cfg \<le> max_delay cfg"
    and accs: "accounts cfg \<noteq> []"
    and ne: "ms \<noteq> []"
    and lo: "0 \<le> members_to_add cfg"
    and hi: "members_to_add cfg \<le> int (length ms)"
    and cap: "members_to_add cfg
      \<le> max_adds_per_day_per_account cfg * int (card (set (accounts cfg)))"
  shows "(\<exists>fuel st. run fuel cfg w (Some ms) = Completed st) \<and>
    (\<forall>fuel st. run fuel cfg w (Some ms) = Completed st \<longrightarrow>
       int (length (added_members st)) = members_to_add cfg \<and>
       added_members st = take (nat (members_to_add cfg)) ms \<and>
       (\<exists>p. progress_file st = Some p \<and>
            int (length (saved_added_members p)) = members_to_add cfg))"
proof -
  have l: "load_members (Some ms) = ms"
    by (simp add: load_members_def)
  have t: "\<exists>fuel st. run fuel cfg w (Some ms) = Completed st"
    using run_terminates [of w cfg "Some ms"] ready cap accs ne
    by (simp add: l)
  have e: "int (length (added_members st)) = members_to_add cfg \<and>
       added_members st = take (nat (members_to_add cfg)) ms \<and>
       (\<exists>p. progress_file st = Some p \<and>
            int (length (saved_added_members p)) = members_to_add cfg)"
    if r: "run fuel cfg w (Some ms) = Completed st" for fuel st
  proof -
    from run_consistent [OF r]
    have c: "consistent cfg w ms st"
      and fin: "\<not> unfinished cfg st"
      and pf: "progress_file st =
        Some \<lparr>saved_added_members = added_members st, saved_daily_stats = daily_stats st\<rparr>"
      by (simp_all add: l)
    from c have req: "requested (trace st) @ members st = ms"
      and add0: "added_members st =
        (if min_delay cfg \<le> max_delay cfg then accepted (trace st) else [])"
      and bound0: "int (length (added_members st)) \<le> max 0 (members_to_add cfg)"
      and hon: "honest w (trace st)"
      unfolding consistent_def by blast+
    from add0 delays have add: "added_members st = accepted (trace st)"
      by simp
    from bound0 lo have bound: "int (length (added_members st)) \<le> members_to_add cfg"
      by simp
    have "accepted (trace st) = requested (trace st)"
    proof (rule all_invited_accepted [OF hon])
      fix k c u
      from invited show "invite_result w k c u = Invited"
        by blast
    qed
    with add have ar: "added_members st = requested (trace st)"
      by simp
    have len: "int (length (added_members st)) = members_to_add cfg"
    proof (cases "members st = []")
      case True
      with req ar have "added_members st = ms"
        by simp
      with hi bound show ?thesis
        by simp
    next
      case False
      with fin have "members_to_add cfg \<le> int (length (added_members st))"
        by (simp add: unfinished_def)
      with bound show ?thesis
        by simp
    qed
    from req ar have "ms = added_members st @ members st"
      by simp
    then have "take (length (added_members st)) ms = added_members st"
      by simp
    moreover from len have "nat (members_to_add cfg) = length (added_members st)"
      by simp
    ultimately have "added_members st = take (nat (members_to_add cfg)) ms"
      by simp
    with len pf show ?thesis
      by simp
  qed
  from t e show ?thesis
    by blast
qed

lemmas dispatcher_code =
  run_def load_members_def run_start_def adder_init_def unfinished_def dispatch_round_def
  add_members_loop.simps add_next_def add_member_def count_success_def save_progress_def
  asyncio_sleep_def randint_def switch_account_def rotate_account_def reselect_def Let_def

subsection \<open>Sample runs\<close>

lemma flooded_run:
  "run (Suc (Suc 0)) roomy_config flooding_world (Some [user_to_dict alice, user_to_dict bob])
     = Completed flooded_final"
  by (simp add: dispatcher_code roomy_config_def solo_config_def flooding_world_def
      friendly_world_def flooded_final_def)

text \<open>Claim C8 at \<open>min_delay = max_delay = 5\<close>: the sleep is exactly 5.\<close>

theorem delay_after_success_witness:
  "add_member solo_config friendly_world (session_path ''+100'') (user_to_dict alice)
     (adder_init solo_config) =
     (Inr True,
      (adder_init solo_config)
        \<lparr>trace := [Invite (session_path ''+100'') (user_to_dict alice) Invited, Slept 5],
         requests := Suc 0\<rparr>)"
  using delay_after_success [of friendly_world "adder_init solo_config"
      "session_path ''+100''" "user_to_dict alice" solo_config]
  by (auto simp: solo_config_def friendly_world_def adder_init_def)

text \<open>Claim C10 on two accounts: after the rotation to index 1 the success is counted for
  the first account.\<close>

theorem peer_flood_keeps_session_witness:
  "daily_stats
     (snd (add_next roomy_config peer_flood_world
        (snd (add_next roomy_config peer_flood_world
           (run_start roomy_config [user_to_dict alice, user_to_dict bob] ''+100'')))))
     = [(''+100'', 1), (''+200'', 0)] \<and>
   current_account_index
     (snd (add_next roomy_config peer_flood_world
        (snd (add_next roomy_config peer_flood_world
           (run_start roomy_config [user_to_dict alice, user_to_dict bob] ''+100'')))))
     = 1 \<and>
   current_phone
     (snd (add_members_loop roomy_config peer_flood_world
        (run_start roomy_config [user_to_dict alice, user_to_dict bob] ''+100'')))
     = ''+100''"
  using peer_flood_keeps_session [of roomy_config peer_flood_world
      "run_start roomy_config [user_to_dict alice, user_to_dict bob] ''+100''"
      "session_path ''+100''" "user_to_dict alice" "user_to_dict alice" "user_to_dict bob" "[]" 0]
  by (simp add: roomy_config_def solo_config_def peer_flood_world_def friendly_world_def
      run_start_def adder_init_def)

text \<open>Claim C5 on a run whose first request is rate-limited with a wait of 30.\<close>

theorem rate_limited_candidate_is_dropped_witness:
  "run (Suc (Suc 0)) roomy_config flooding_world (Some [user_to_dict alice, user_to_dict bob])
     = Completed flooded_final \<and>
   Invite (session_path ''+100'') (user_to_dict alice) (FloodWaitError 30)
     \<in> set (trace flooded_final) \<and>
   user_to_dict alice \<notin> set (added_members flooded_final) \<and>
   count_list (requested (trace flooded_final)) (user_to_dict alice) = 1"
proof -
  have d: "distinct (load_members (Some [user_to_dict alice, user_to_dict bob]))"
    by (simp add: load_members_def user_to_dict_def alice_def bob_def)
  have i: "Invite (session_path ''+100'') (user_to_dict alice) (FloodWaitError 30)
     \<in> set (trace flooded_final)"
    by (simp add: flooded_final_def)
  from rate_limited_candidate_is_dropped [of flooding_world flooded_final "[]"
      "user_to_dict alice" 0 roomy_config "Suc (Suc 0)"
      "Some [user_to_dict alice, user_to_dict bob]" flooded_final
      "session_path ''+100''" "user_to_dict alice" 30]
    flooded_run d i
  show ?thesis
    by blast
qed

text \<open>Claim C4 on two accounts and a completed run.\<close>

theorem quota_and_round_robin_witness:
  "switch_account roomy_config flooded_final
     = Inr (flooded_final\<lparr>current_account_index := 1\<rparr>) \<and>
   switch_account roomy_config (flooded_final\<lparr>current_account_index := 1\<rparr>)
     = Inr (flooded_final\<lparr>current_account_index := 0\<rparr>) \<and>
   run (Suc (Suc 0)) roomy_config flooding_world (Some [user_to_dict alice, user_to_dict bob])
     = Completed flooded_final \<and>
   (''+100'', 1) \<in> set (daily_stats flooded_final) \<and>
   (1::int) \<le> max 0 (max_adds_per_day_per_account roomy_config)"
proof -
  have a: "accounts roomy_config \<noteq> []"
    and l: "length (accounts roomy_config) = 2"
    by (simp_all add: roomy_config_def solo_config_def)
  have i: "(''+100'', 1) \<in> set (daily_stats flooded_final)"
    by (simp add: flooded_final_def)
  note t = quota_and_round_robin [of roomy_config flooded_final "''+100''" "[''+200'']"
      "''+100''" 1 0 flooding_world "[]" "Suc (Suc 0)"
      "Some [user_to_dict alice, user_to_dict bob]" flooded_final]
  from t a have "switch_account roomy_config flooded_final =
      Inr (flooded_final\<lparr>current_account_index :=
        (current_account_index flooded_final + 1) mod length (accounts roomy_config)\<rparr>)"
    by blast
  then have p1: "switch_account roomy_config flooded_final
     = Inr (flooded_final\<lparr>current_account_index := 1\<rparr>)"
    by (simp add: l) (simp add: flooded_final_def)
  from t flooded_run i have p3: "(1::int) \<le> max 0 (max_adds_per_day_per_account roomy_config)"
    by blast
  have p2: "switch_account roomy_config (flooded_final\<lparr>current_account_index := 1\<rparr>)
     = Inr (flooded_final\<lparr>current_account_index := 0\<rparr>)"
    using a l by (simp add: switch_account_def)
  from p1 p2 p3 i flooded_run show ?thesis
    by blast
qed

text \<open>The amended claim C2 on the sample runs.\<close>

theorem run_stops_when_quota_suffices_witness:
  "(\<exists>fuel. run fuel roomy_config friendly_world
      (Some [user_to_dict alice, user_to_dict bob, user_to_dict carol]) \<noteq> StillRunning) \<and>
   run (Suc (Suc 0)) roomy_config flooding_world (Some [user_to_dict alice, user_to_dict bob])
     = Completed flooded_final \<and>
   members flooded_final = [] \<and>
   progress_file flooded_final =
     Some \<lparr>saved_added_members = added_members flooded_final,
           saved_daily_stats = daily_stats flooded_final\<rparr> \<and>
   run (Suc (Suc 0) + 7) roomy_config flooding_world
     (Some [user_to_dict alice, user_to_dict bob]) = Completed flooded_final \<and>
   exhausted solo_config
     (rounds (Suc 0) solo_config friendly_world
        (run_start solo_config [user_to_dict alice, user_to_dict bob] ''+100'')) \<and>
   run 9 solo_config friendly_world (Some [user_to_dict alice, user_to_dict bob])
     = StillRunning \<and>
   run 9 solo_config friendly_world None = NoMembersFound \<and>
   run 9 (solo_config\<lparr>accounts := []\<rparr>) friendly_world (Some [user_to_dict alice])
     = Raised IndexError"
proof -
  have r: "\<forall>k s. session_state friendly_world k s = Ready"
    by (simp add: friendly_world_def)
  have c: "members_to_add roomy_config
      \<le> max_adds_per_day_per_account roomy_config * int (card (set (accounts roomy_config)))"
    by (simp add: roomy_config_def solo_config_def card_insert_if)
  have l: "load_members (Some [user_to_dict alice, user_to_dict bob])
      = [user_to_dict alice, user_to_dict bob]"
    by (simp add: load_members_def)
  have a: "accounts solo_config = ''+100'' # []"
    by (simp add: solo_config_def)
  have e: "exhausted solo_config
     (rounds (Suc 0) solo_config friendly_world
        (run_start solo_config [user_to_dict alice, user_to_dict bob] ''+100''))"
    by (simp add: exhausted_def dispatcher_code solo_config_def friendly_world_def)
  from run_stops_when_quota_suffices [of "Suc (Suc 0)" roomy_config flooding_world
      "Some [user_to_dict alice, user_to_dict bob]" flooded_final 7]
    flooded_run
  have p1: "run (Suc (Suc 0) + 7) roomy_config flooding_world
     (Some [user_to_dict alice, user_to_dict bob]) = Completed flooded_final"
    by blast
  from run_stops_when_quota_suffices [of 0 roomy_config friendly_world
      "Some [user_to_dict alice, user_to_dict bob, user_to_dict carol]" flooded_final]
    r c
  have p2: "\<exists>fuel. run fuel roomy_config friendly_world
      (Some [user_to_dict alice, user_to_dict bob, user_to_dict carol]) \<noteq> StillRunning"
    by blast
  from run_stops_when_quota_suffices [of 9 solo_config friendly_world
      "Some [user_to_dict alice, user_to_dict bob]" flooded_final 0 "''+100''" "[]" "Suc 0"]
    a e
  have p3: "run 9 solo_config friendly_world (Some [user_to_dict alice, user_to_dict bob])
     = StillRunning"
    unfolding l by blast
  from run_stops_when_quota_suffices [of 9 solo_config friendly_world None]
  have p4: "run 9 solo_config friendly_world None = NoMembersFound"
    by (simp add: load_members_def)
  from run_stops_when_quota_suffices [of 9 "solo_config\<lparr>accounts := []\<rparr>" friendly_world
      "Some [user_to_dict alice]"]
  have p5: "run 9 (solo_config\<lparr>accounts := []\<rparr>) friendly_world (Some [user_to_dict alice])
     = Raised IndexError"
    by (simp add: load_members_def)
  from p1 p2 p3 p4 p5 e flooded_run show ?thesis
    by (simp add: flooded_final_def)
qed

text \<open>The amended claim C3 with a target of 2 and three candidates.\<close>

theorem full_success_adds_exactly_target_witness:
  "\<exists>fuel st.
     run fuel roomy_config friendly_world
       (Some [user_to_dict alice, user_to_dict bob, user_to_dict carol]) = Completed st \<and>
     added_members st = [user_to_dict alice, user_to_dict bob] \<and>
     (\<exists>p. progress_file st = Some p \<and> length (saved_added_members p) = 2)"
proof -
  have r: "\<forall>k s. session_state friendly_world k s = Ready"
    and i: "\<forall>k s u. invite_result friendly_world k s u = Invited"
    by (simp_all add: friendly_world_def)
  have c: "members_to_add roomy_config
      \<le> max_adds_per_day_per_account roomy_config * int (card (set (accounts roomy_config)))"
    by (simp add: roomy_config_def solo_config_def card_insert_if)
  have o: "min_delay roomy_config \<le> max_delay roomy_config"
    "accounts roomy_config \<noteq> []" "0 \<le> members_to_add roomy_config"
    "members_to_add roomy_config
       \<le> int (length [user_to_dict alice, user_to_dict bob, user_to_dict carol])"
    "members_to_add roomy_config = 2"
    by (simp_all add: roomy_config_def solo_config_def)
  have ne: "[user_to_dict alice, user_to_dict bob, user_to_dict carol] \<noteq> []"
    by simp
  from full_success_adds_exactly_target [OF r i o(1) o(2) ne o(3) o(4) c]
  have t: "\<exists>fuel st. run fuel roomy_config friendly_world
       (Some [user_to_dict alice, user_to_dict bob, user_to_dict carol]) = Completed st"
    and e: "\<And>fuel st. run fuel roomy_config friendly_world
       (Some [user_to_dict alice, user_to_dict bob, user_to_dict carol]) = Completed st \<Longrightarrow>
       int (length (added_members st)) = members_to_add roomy_config \<and>
       added_members st =
         take (nat (members_to_add roomy_config))
           [user_to_dict alice, user_to_dict bob, user_to_dict carol] \<and>
       (\<exists>p. progress_file st = Some p \<and>
            int (length (saved_added_members p)) = members_to_add roomy_config)"
    by blast+
  from t obtain fuel st where run: "run fuel roomy_config friendly_world
       (Some [user_to_dict alice, user_to_dict bob, user_to_dict carol]) = Completed st"
    by blast
  have two: "take 2 [user_to_dict alice, user_to_dict bob, user_to_dict carol]
      = [user_to_dict alice, user_to_dict bob]"
    by simp
  from e [OF run] have "added_members st = [user_to_dict alice, user_to_dict bob] \<and>
     (\<exists>p. progress_file st = Some p \<and> length (saved_added_members p) = 2)"
    by (simp add: o(5) two)
  with run show ?thesis
    by blast
qed

lemma never_completes:
  assumes a: "accounts cfg = a0 # as" and m: "ms \<noteq> []"
    and u: "unfinished cfg (run_start cfg ms a0)"
    and e: "exhausted cfg (dispatch_round cfg w (run_start cfg ms a0))"
  shows "run fuel cfg w (Some ms) = StillRunning"
proof (cases fuel)
  case 0
  then show ?thesis
    using a m by (simp add: run_def load_members_def)
next
  case (Suc n)
  have c: "consistent cfg w ms (dispatch_round cfg w (run_start cfg ms a0))"
    using round_consistent [OF run_start_consistent [OF a]] by simp
  have "dispatch_loop (Suc n) cfg w (run_start cfg ms a0)
      = dispatch_loop n cfg w (dispatch_round cfg w (run_start cfg ms a0))"
    using u by simp
  also have "\<dots> = None"
    using c e by (rule exhausted_never_stops)
  finally show ?thesis
    using a m Suc by (simp add: run_def load_members_def del: dispatch_loop.simps)
qed

text \<open>
  Claim C2, as stated, fails: one account with a quota of 1, a target of 2 and two
  candidates whose requests all succeed. After the first addition the quota of the only
  account is exhausted while a candidate remains, and the run never stops.
\<close>

theorem exhausted_quota_counterexample:
  "\<forall>fuel. run fuel solo_config friendly_world (Some [user_to_dict alice, user_to_dict bob])
     = StillRunning"
proof
  fix fuel
  show "run fuel solo_config friendly_world (Some [user_to_dict alice, user_to_dict bob])
     = StillRunning"
  proof (rule never_completes)
    show "accounts solo_config = ''+100'' # []"
      by (simp add: solo_config_def)
    show "[user_to_dict alice, user_to_dict bob] \<noteq> []"
      by simp
    show "unfinished solo_config
        (run_start solo_config [user_to_dict alice, user_to_dict bob] ''+100'')"
      by (simp add: dispatcher_code solo_config_def)
    show "exhausted solo_config (dispatch_round solo_config friendly_world
        (run_start solo_config [user_to_dict alice, user_to_dict bob] ''+100''))"
      by (simp add: exhausted_def dispatcher_code solo_config_def friendly_world_def)
  qed
qed

text \<open>
  Claim C3, as stated, fails: a target of 3, three candidates, every request succeeding,
  but one account with a quota of 2. The run never completes, so there is no final added
  set.
\<close>

theorem all_succeed_but_quota_short_counterexample:
  "members_to_add short_quota_config = 3 \<and>
   length [user_to_dict alice, user_to_dict bob, user_to_dict carol] = 3 \<and>
   (\<forall>k s u. invite_result friendly_world k s u = Invited) \<and>
   (\<forall>fuel. run fuel short_quota_config friendly_world
      (Some [user_to_dict alice, user_to_dict bob, user_to_dict carol]) = StillRunning)"
proof -
  have "run fuel short_quota_config friendly_world
      (Some [user_to_dict alice, user_to_dict bob, user_to_dict carol]) = StillRunning" for fuel
  proof (rule never_completes)
    show "accounts short_quota_config = ''+100'' # []"
      by (simp add: short_quota_config_def solo_config_def)
    show "[user_to_dict alice, user_to_dict bob, user_to_dict carol] \<noteq> []"
      by simp
    show "unfinished short_quota_config
        (run_start short_quota_config
          [user_to_dict alice, user_to_dict bob, user_to_dict carol] ''+100'')"
      by (simp add: dispatcher_code short_quota_config_def solo_config_def)
    show "exhausted short_quota_config (dispatch_round short_quota_config friendly_world
        (run_start short_quota_config
          [user_to_dict alice, user_to_dict bob, user_to_dict carol] ''+100''))"
      by (simp add: exhausted_def dispatcher_code short_quota_config_def solo_config_def
          friendly_world_def)
  qed
  then show ?thesis
    by (simp add: short_quota_config_def solo_config_def friendly_world_def)
qed

end
